theory Spec2Isabelle
  imports Main "HOL-Library.Word"
begin

section \<open>Data model\<close>

text \<open>
  The USB device core of \<^verbatim>\<open>system/dev/usb/usb-bus/usb-device.c\<close> and
  \<^verbatim>\<open>system/dev/usb/usb-composite/usb-composite.c\<close>. Bytes are \<open>8 word\<close>, a
  configuration descriptor blob is the list of the bytes of its allocation, and a C pointer
  into a blob is the offset from the start of the blob.
\<close>

type_synonym u8 = "8 word"
type_synonym u16 = "16 word"
type_synonym u32 = "32 word"

text \<open>\<^verbatim>\<open>interface_status_t\<close> of usb-device.h; \<open>AVAILABLE\<close> is the enumerator 0.\<close>

datatype interface_status_t = AVAILABLE | CLAIMED | CHILD_DEVICE

text \<open>
  The \<^verbatim>\<open>zx_status_t\<close> values the two files use. \<open>ZX_OK\<close> is 0 and every
  \<open>ZX_ERR_*\<close> is negative, so the source's test \<^verbatim>\<open>status < 0\<close> is \<open>status \<noteq> ZX_OK\<close> here.
\<close>

datatype zx_status_t =
    ZX_OK
  | ZX_ERR_INTERNAL
  | ZX_ERR_NOT_SUPPORTED
  | ZX_ERR_NO_MEMORY
  | ZX_ERR_INVALID_ARGS
  | ZX_ERR_BUFFER_TOO_SMALL
  | ZX_ERR_BAD_STATE
  | ZX_ERR_TIMED_OUT
  | ZX_ERR_ALREADY_BOUND
  | ZX_ERR_IO

text \<open>
  A read or write outside the allocation it addresses is undefined behaviour in C. The model
  makes it a value of its own, so that every unchecked access of the source is a visible branch.
\<close>

datatype fault = Out_of_bounds

definition rd8 :: "u8 list \<Rightarrow> nat \<Rightarrow> fault + u8" where
  "rd8 m a = (if a < length m then Inr (m ! a) else Inl Out_of_bounds)"

text \<open>
  Field offsets of the standard descriptors (the declarations of \<^verbatim>\<open>zircon/hw/usb.h\<close>):
  every descriptor starts with \<open>bLength\<close>, \<open>bDescriptorType\<close>; an interface descriptor
  continues with \<open>bInterfaceNumber\<close>, \<open>bAlternateSetting\<close>; an interface association
  descriptor with \<open>bFirstInterface\<close>, \<open>bInterfaceCount\<close>; a configuration descriptor with
  the little-endian \<open>wTotalLength\<close>, then \<open>bNumInterfaces\<close> and \<open>bConfigurationValue\<close>.
\<close>

definition USB_DT_INTERFACE :: u8 where
  "USB_DT_INTERFACE = 0x04"

definition USB_DT_INTERFACE_ASSOCIATION :: u8 where
  "USB_DT_INTERFACE_ASSOCIATION = 0x0B"

definition bLength :: "u8 list \<Rightarrow> nat \<Rightarrow> fault + u8" where
  "bLength m p = rd8 m p"

definition bDescriptorType :: "u8 list \<Rightarrow> nat \<Rightarrow> fault + u8" where
  "bDescriptorType m p = rd8 m (p + 1)"

definition bInterfaceNumber :: "u8 list \<Rightarrow> nat \<Rightarrow> fault + u8" where
  "bInterfaceNumber m p = rd8 m (p + 2)"

definition bAlternateSetting :: "u8 list \<Rightarrow> nat \<Rightarrow> fault + u8" where
  "bAlternateSetting m p = rd8 m (p + 3)"

definition bInterfaceCount :: "u8 list \<Rightarrow> nat \<Rightarrow> fault + u8" where
  "bInterfaceCount m p = rd8 m (p + 3)"

definition wTotalLength :: "u8 list \<Rightarrow> fault + nat" where
  "wTotalLength m =
     (case rd8 m 2 of
        Inl f \<Rightarrow> Inl f
      | Inr lo \<Rightarrow> (case rd8 m 3 of
                    Inl f \<Rightarrow> Inl f
                  | Inr hi \<Rightarrow> Inr (unat lo + 256 * unat hi)))"

definition bNumInterfaces :: "u8 list \<Rightarrow> fault + u8" where
  "bNumInterfaces m = rd8 m 4"

definition bConfigurationValue :: "u8 list \<Rightarrow> fault + u8" where
  "bConfigurationValue m = rd8 m 5"

text \<open>\<^verbatim>\<open>NEXT_DESCRIPTOR(header)\<close>: the pointer advanced by the descriptor's own \<open>bLength\<close>.\<close>

definition NEXT_DESCRIPTOR :: "u8 list \<Rightarrow> nat \<Rightarrow> fault + nat" where
  "NEXT_DESCRIPTOR m header =
     (case bLength m header of Inl f \<Rightarrow> Inl f | Inr l \<Rightarrow> Inr (header + unat l))"

text \<open>
  Modelled from the spec: the interface-child record (\<^verbatim>\<open>usb_interface_t\<close> of
  usb-interface.h, which is not among the sources). The spec gives it the interface number
  (or the first interface number of an association group) and a copy of the descriptor span.
\<close>

record usb_interface_t =
  interface_number :: u8
  descriptors :: "u8 list"

text \<open>
  The fields of \<^verbatim>\<open>usb_request_t\<close> that the two files read or write (its declaration is in
  ddk/usb-request, not among the sources). A completion callback is one of the two callbacks of
  usb-device.c or a client's; a cookie is the address of a completion, of the device, or a
  client's value.
\<close>

datatype callback = Usb_control_complete | Request_complete | Client_callback nat

datatype cookie = Completion_ptr | Device_ptr | Client_cookie nat

record usb_setup_t =
  bmRequestType :: u8
  bRequest :: u8
  wValue :: u16
  wIndex :: u16
  wLength :: u16

record usb_request_t =
  req_setup :: usb_setup_t
  header_device_id :: u32
  header_length :: nat
  complete_cb :: callback
  cookie :: cookie
  saved_complete_cb :: callback
  saved_cookie :: cookie
  response_status :: zx_status_t
  response_actual :: nat
  buffer :: "u8 list"

text \<open>
  Calls the device core makes on its collaborators, in the order it makes them: the device
  framework (\<^verbatim>\<open>device_add\<close> for a single interface or for an interface association, with
  the status the framework answered; \<^verbatim>\<open>device_remove\<close>) and the control request
  \<open>SET_CONFIGURATION\<close>.
\<close>

datatype call =
    Device_add_interface "u8 list" zx_status_t
  | Device_add_association "u8 list" zx_status_t
  | Device_remove usb_interface_t
  | Set_configuration u8 zx_status_t

text \<open>The fields of \<^verbatim>\<open>usb_device_t\<close> the modelled functions use, and the call log.\<close>

record usb_device =
  device_id :: u32
  hub_id :: u32
  speed :: u32
  device_desc :: "u8 list"
  bNumConfigurations :: u8
  config_descs :: "u8 list list"
  current_config_index :: int
  interface_statuses :: "interface_status_t list"
  children :: "usb_interface_t list"
  completed_reqs :: "usb_request_t list"
  callback_thread_completion :: bool
  calls :: "call list"

text \<open>
  What the functions under verification cannot decide themselves: whether \<^verbatim>\<open>malloc\<close>
  of a given size succeeds, the status \<^verbatim>\<open>device_add\<close> answers for a child with a given
  descriptor span, the interfaces that the drivers bound during that \<^verbatim>\<open>device_add\<close> claim
  before it returns, the status of the \<open>SET_CONFIGURATION\<close> control transfer
  (\<^verbatim>\<open>usb_util_control\<close>, \<^verbatim>\<open>usb_control\<close>), the status of
  \<^verbatim>\<open>usb_interface_set_alt_setting\<close>, the frame number of the controller, the answer of
  \<^verbatim>\<open>usb_util_get_string_descriptor\<close> (status, language and encoded string for a descriptor
  index, a language and the space offered), the size and the decoding (descriptor index,
  language) of \<^verbatim>\<open>usb_ioctl_get_string_desc_req_t\<close>, and the value of
  \<^verbatim>\<open>USB_DEVICE_TYPE_DEVICE\<close>.
\<close>

record env =
  malloc_ok :: "nat \<Rightarrow> bool"
  device_add_status :: "u8 list \<Rightarrow> zx_status_t"
  bind_claims :: "u8 list \<Rightarrow> u8 list"
  control_status :: "u8 \<Rightarrow> zx_status_t"
  alt_setting_status :: "u8 \<Rightarrow> u8 \<Rightarrow> zx_status_t"
  current_frame :: "64 word"
  string_descriptor :: "u8 \<Rightarrow> u16 \<Rightarrow> nat \<Rightarrow> zx_status_t \<times> u16 \<times> u8 list"
  string_req_size :: nat
  string_req :: "u8 list \<Rightarrow> u8 \<times> u16"
  device_type_device :: u32

section \<open>Interface registry\<close>

text \<open>The unchecked accesses \<^verbatim>\<open>dev->interface_statuses[i]\<close>.\<close>

definition status_at :: "usb_device \<Rightarrow> u8 \<Rightarrow> fault + interface_status_t" where
  "status_at dev i =
     (if unat i < length (interface_statuses dev) then Inr (interface_statuses dev ! unat i)
      else Inl Out_of_bounds)"

definition set_status :: "usb_device \<Rightarrow> u8 \<Rightarrow> interface_status_t \<Rightarrow> fault + usb_device" where
  "set_status dev i s =
     (if unat i < length (interface_statuses dev)
      then Inr (dev\<lparr>interface_statuses := (interface_statuses dev)[unat i := s]\<rparr>)
      else Inl Out_of_bounds)"

text \<open>
  Modelled from the spec: \<^verbatim>\<open>usb_interface_contains_interface\<close> (usb-interface.c is not
  among the sources). The child that owns an interface number is the child recorded under it.
\<close>

definition usb_interface_contains_interface :: "usb_interface_t \<Rightarrow> u8 \<Rightarrow> bool" where
  "usb_interface_contains_interface intf interface_id = (interface_number intf = interface_id)"

text \<open>
  Modelled from the spec: \<^verbatim>\<open>usb_device_remove_interface_by_id_locked\<close> (usb-interface.c).
  It retracts the child that owns the interface: the first such child leaves \<open>children\<close> and
  the framework's remove is called on it; the answer is whether a child was found.
\<close>

fun remove_first :: "u8 \<Rightarrow> usb_interface_t list \<Rightarrow> (usb_interface_t \<times> usb_interface_t list) option" where
  "remove_first i [] = None"
| "remove_first i (c # cs) =
     (if usb_interface_contains_interface c i then Some (c, cs)
      else (case remove_first i cs of None \<Rightarrow> None | Some (r, cs') \<Rightarrow> Some (r, c # cs')))"

definition usb_device_remove_interface_by_id_locked :: "usb_device \<Rightarrow> u8 \<Rightarrow> bool \<times> usb_device" where
  "usb_device_remove_interface_by_id_locked dev interface_id =
     (case remove_first interface_id (children dev) of
        None \<Rightarrow> (False, dev)
      | Some (intf, rest) \<Rightarrow>
          (True, dev\<lparr>children := rest, calls := calls dev @ [Device_remove intf]\<rparr>))"

text \<open>\<^verbatim>\<open>usb_device_claim_interface\<close> (usb-device.c 132-152, usb-composite.c 75-95).\<close>

definition usb_device_claim_interface :: "usb_device \<Rightarrow> u8 \<Rightarrow> fault + (zx_status_t \<times> usb_device)" where
  "usb_device_claim_interface dev interface_id =
     (case status_at dev interface_id of
        Inl f \<Rightarrow> Inl f
      | Inr status \<Rightarrow>
          if status = CLAIMED then Inr (ZX_ERR_ALREADY_BOUND, dev)
          else if status = CHILD_DEVICE then
            (case usb_device_remove_interface_by_id_locked dev interface_id of
               (removed, dev') \<Rightarrow>
                 if \<not> removed then Inr (ZX_ERR_BAD_STATE, dev')
                 else (case set_status dev' interface_id CLAIMED of
                         Inl f \<Rightarrow> Inl f | Inr dev'' \<Rightarrow> Inr (ZX_OK, dev'')))
          else (case set_status dev interface_id CLAIMED of
                  Inl f \<Rightarrow> Inl f | Inr dev'' \<Rightarrow> Inr (ZX_OK, dev'')))"

text \<open>\<^verbatim>\<open>usb_device_remove_interfaces\<close>: every child is taken from the head and removed.\<close>

fun remove_all :: "usb_interface_t list \<Rightarrow> call list \<Rightarrow> call list" where
  "remove_all [] log = log"
| "remove_all (intf # rest) log = remove_all rest (log @ [Device_remove intf])"

definition usb_device_remove_interfaces :: "usb_device \<Rightarrow> usb_device" where
  "usb_device_remove_interfaces dev =
     dev\<lparr>children := [], calls := remove_all (children dev) (calls dev)\<rparr>"

text \<open>
  The claims that arrive while a child is being added: each is a call of
  \<open>usb_device_claim_interface\<close>, whose status goes to the claiming driver.
\<close>

fun claim_all :: "u8 list \<Rightarrow> usb_device \<Rightarrow> fault + usb_device" where
  "claim_all [] dev = Inr dev"
| "claim_all (i # is) dev =
     (case usb_device_claim_interface dev i of
        Inl f \<Rightarrow> Inl f
      | Inr (status, dev') \<Rightarrow> claim_all is dev')"

text \<open>
  Modelled from the spec: \<^verbatim>\<open>usb_device_add_interface\<close> and
  \<^verbatim>\<open>usb_device_add_interface_association\<close> (usb-interface.c is not among the sources).
  Publication hands the child to the framework; when the framework accepts it, the child
  joins \<open>children\<close> and the drivers bound meanwhile may claim interfaces before the call
  returns. A refused child is not kept. The child is recorded under the byte at offset 2 of
  its span: \<open>bInterfaceNumber\<close> of an interface, \<open>bFirstInterface\<close> of an association.
\<close>

definition usb_device_add_interface :: "env \<Rightarrow> usb_device \<Rightarrow> u8 list \<Rightarrow> fault + (zx_status_t \<times> usb_device)" where
  "usb_device_add_interface e dev interface_desc =
     (case bInterfaceNumber interface_desc 0 of
        Inl f \<Rightarrow> Inl f
      | Inr n \<Rightarrow>
          (let status = device_add_status e interface_desc;
               dev1 = dev\<lparr>calls := calls dev @ [Device_add_interface interface_desc status]\<rparr>
           in if status \<noteq> ZX_OK then Inr (status, dev1)
              else (case claim_all (bind_claims e interface_desc)
                           (dev1\<lparr>children := \<lparr>interface_number = n, descriptors = interface_desc\<rparr> # children dev1\<rparr>) of
                      Inl f \<Rightarrow> Inl f
                    | Inr dev2 \<Rightarrow> Inr (ZX_OK, dev2))))"

definition usb_device_add_interface_association :: "env \<Rightarrow> usb_device \<Rightarrow> u8 list \<Rightarrow> fault + (zx_status_t \<times> usb_device)" where
  "usb_device_add_interface_association e dev assoc_desc =
     (case bInterfaceNumber assoc_desc 0 of
        Inl f \<Rightarrow> Inl f
      | Inr n \<Rightarrow>
          (let status = device_add_status e assoc_desc;
               dev1 = dev\<lparr>calls := calls dev @ [Device_add_association assoc_desc status]\<rparr>
           in if status \<noteq> ZX_OK then Inr (status, dev1)
              else (case claim_all (bind_claims e assoc_desc)
                           (dev1\<lparr>children := \<lparr>interface_number = n, descriptors = assoc_desc\<rparr> # children dev1\<rparr>) of
                      Inl f \<Rightarrow> Inl f
                    | Inr dev2 \<Rightarrow> Inr (ZX_OK, dev2))))"

section \<open>Descriptor walk\<close>

text \<open>\<^verbatim>\<open>memcpy(copy, desc, length)\<close> out of the blob; reading past the allocation is a fault.\<close>

definition memcpy_span :: "u8 list \<Rightarrow> nat \<Rightarrow> nat \<Rightarrow> fault + u8 list" where
  "memcpy_span m start len =
     (if start + len \<le> length m then Inr (take len (drop start m)) else Inl Out_of_bounds)"

text \<open>
  The inner loop of the association branch (usb-device.c 373-387): from \<open>next\<close>, advance to
  the next association descriptor, to the top-level interface that follows the
  \<open>interface_count\<close> consumed ones, or to \<open>end\<close>. \<open>None\<close> is a loop that never exits.
\<close>

partial_function (option) assoc_end :: "u8 list \<Rightarrow> nat \<Rightarrow> nat \<Rightarrow> int \<Rightarrow> (fault + nat) option" where
  "assoc_end m end next interface_count =
     (if next < end then
        (case bDescriptorType m next of
           Inl f \<Rightarrow> Some (Inl f)
         | Inr ty \<Rightarrow>
             if ty = USB_DT_INTERFACE_ASSOCIATION then Some (Inr next)
             else if ty = USB_DT_INTERFACE then
               (case bAlternateSetting m next of
                  Inl f \<Rightarrow> Some (Inl f)
                | Inr alt \<Rightarrow>
                    if alt = 0 then
                      (if interface_count = 0 then Some (Inr next)
                       else (case NEXT_DESCRIPTOR m next of
                               Inl f \<Rightarrow> Some (Inl f)
                             | Inr next' \<Rightarrow> assoc_end m end next' (interface_count - 1)))
                    else (case NEXT_DESCRIPTOR m next of
                            Inl f \<Rightarrow> Some (Inl f)
                          | Inr next' \<Rightarrow> assoc_end m end next' interface_count))
             else (case NEXT_DESCRIPTOR m next of
                     Inl f \<Rightarrow> Some (Inl f)
                   | Inr next' \<Rightarrow> assoc_end m end next' interface_count))
      else Some (Inr next))"

text \<open>
  The inner loop of the interface branch (usb-device.c 404-414): advance to the next
  interface descriptor with alternate setting 0, or to \<open>end\<close>.
\<close>

partial_function (option) intf_end :: "u8 list \<Rightarrow> nat \<Rightarrow> nat \<Rightarrow> (fault + nat) option" where
  "intf_end m end next =
     (if next < end then
        (case bDescriptorType m next of
           Inl f \<Rightarrow> Some (Inl f)
         | Inr ty \<Rightarrow>
             if ty = USB_DT_INTERFACE then
               (case bAlternateSetting m next of
                  Inl f \<Rightarrow> Some (Inl f)
                | Inr alt \<Rightarrow>
                    if alt = 0 then Some (Inr next)
                    else (case NEXT_DESCRIPTOR m next of
                            Inl f \<Rightarrow> Some (Inl f)
                          | Inr next' \<Rightarrow> intf_end m end next'))
             else (case NEXT_DESCRIPTOR m next of
                     Inl f \<Rightarrow> Some (Inl f)
                   | Inr next' \<Rightarrow> intf_end m end next'))
      else Some (Inr next))"

text \<open>
  One pass of the outer loop either leaves the function with a status (the early
  \<^verbatim>\<open>return\<close>s) or goes on with the running \<open>result\<close>.
\<close>

datatype flow = Return zx_status_t usb_device | Continue zx_status_t usb_device

text \<open>
  The body of the association branch after its inner loop (usb-device.c 389-397): the span
  \<open>[assoc_desc, next)\<close> is copied and published.
\<close>

definition publish_association :: "env \<Rightarrow> u8 list \<Rightarrow> nat \<Rightarrow> nat \<Rightarrow> zx_status_t \<Rightarrow> usb_device \<Rightarrow> fault + flow" where
  "publish_association e config assoc_desc next result parent =
     (let len = next - assoc_desc in
      if \<not> malloc_ok e len then Inr (Return ZX_ERR_NO_MEMORY parent)
      else (case memcpy_span config assoc_desc len of
              Inl f \<Rightarrow> Inl f
            | Inr assoc_copy \<Rightarrow>
                (case usb_device_add_interface_association e parent assoc_copy of
                   Inl f \<Rightarrow> Inl f
                 | Inr (status, parent') \<Rightarrow>
                     Inr (Continue (if status \<noteq> ZX_OK then status else result) parent'))))"

text \<open>
  The body of the interface branch after its inner loop (usb-device.c 416-445): a child is
  created only for an \<open>AVAILABLE\<close> interface, and the status is read again once the child
  has been added.
\<close>

definition publish_interface :: "env \<Rightarrow> u8 list \<Rightarrow> nat \<Rightarrow> nat \<Rightarrow> zx_status_t \<Rightarrow> usb_device \<Rightarrow> fault + flow" where
  "publish_interface e config intf_desc next result parent =
     (case bInterfaceNumber config intf_desc of
        Inl f \<Rightarrow> Inl f
      | Inr n \<Rightarrow>
     (case status_at parent n of
        Inl f \<Rightarrow> Inl f
      | Inr intf_status \<Rightarrow>
          (let len = next - intf_desc in
           if intf_status = AVAILABLE then
             (if \<not> malloc_ok e len then Inr (Return ZX_ERR_NO_MEMORY parent)
              else (case memcpy_span config intf_desc len of
                      Inl f \<Rightarrow> Inl f
                    | Inr intf_copy \<Rightarrow>
                (case usb_device_add_interface e parent intf_copy of
                   Inl f \<Rightarrow> Inl f
                 | Inr (status, parent1) \<Rightarrow>
                     (let result' = (if status \<noteq> ZX_OK then status else result) in
                      case status_at parent1 n of
                        Inl f \<Rightarrow> Inl f
                      | Inr again \<Rightarrow>
                          if again = CLAIMED then
                            (case usb_device_remove_interface_by_id_locked parent1 n of
                               (removed, parent2) \<Rightarrow>
                                 if \<not> removed then Inr (Return ZX_ERR_BAD_STATE parent2)
                                 else Inr (Continue result' parent2))
                          else (case set_status parent1 n CHILD_DEVICE of
                                  Inl f \<Rightarrow> Inl f
                                | Inr parent2 \<Rightarrow> Inr (Continue result' parent2))))))
           else Inr (Continue result parent))))"

text \<open>
  The outer loop of \<^verbatim>\<open>usb_device_add_interfaces\<close> (usb-device.c 366-450, the same text
  as usb-composite.c 167-251). \<open>None\<close> is a walk that never returns.
\<close>

partial_function (option) add_interfaces_loop ::
  "env \<Rightarrow> u8 list \<Rightarrow> nat \<Rightarrow> nat \<Rightarrow> zx_status_t \<Rightarrow> usb_device \<Rightarrow> (fault + zx_status_t \<times> usb_device) option" where
  "add_interfaces_loop e config end header result parent =
     (if header < end then
        (case bDescriptorType config header of
           Inl f \<Rightarrow> Some (Inl f)
         | Inr ty \<Rightarrow>
             if ty = USB_DT_INTERFACE_ASSOCIATION then
               (case bInterfaceCount config header of
                  Inl f \<Rightarrow> Some (Inl f)
                | Inr interface_count \<Rightarrow>
               (case NEXT_DESCRIPTOR config header of
                  Inl f \<Rightarrow> Some (Inl f)
                | Inr next0 \<Rightarrow>
               (case assoc_end config end next0 (uint interface_count) of
                  None \<Rightarrow> None
                | Some (Inl f) \<Rightarrow> Some (Inl f)
                | Some (Inr next) \<Rightarrow>
               (case publish_association e config header next result parent of
                  Inl f \<Rightarrow> Some (Inl f)
                | Inr (Return status parent') \<Rightarrow> Some (Inr (status, parent'))
                | Inr (Continue result' parent') \<Rightarrow>
                    add_interfaces_loop e config end next result' parent'))))
             else if ty = USB_DT_INTERFACE then
               (case NEXT_DESCRIPTOR config header of
                  Inl f \<Rightarrow> Some (Inl f)
                | Inr next0 \<Rightarrow>
               (case intf_end config end next0 of
                  None \<Rightarrow> None
                | Some (Inl f) \<Rightarrow> Some (Inl f)
                | Some (Inr next) \<Rightarrow>
               (case publish_interface e config header next result parent of
                  Inl f \<Rightarrow> Some (Inl f)
                | Inr (Return status parent') \<Rightarrow> Some (Inr (status, parent'))
                | Inr (Continue result' parent') \<Rightarrow>
                    add_interfaces_loop e config end next result' parent')))
             else
               (case NEXT_DESCRIPTOR config header of
                  Inl f \<Rightarrow> Some (Inl f)
                | Inr header' \<Rightarrow> add_interfaces_loop e config end header' result parent))
      else Some (Inr (result, parent)))"

text \<open>
  \<^verbatim>\<open>usb_device_add_interfaces\<close>: the walk starts at the descriptor after the configuration
  header and ends at \<^verbatim>\<open>config + le16toh(config->wTotalLength)\<close>.
\<close>

definition usb_device_add_interfaces ::
  "env \<Rightarrow> usb_device \<Rightarrow> u8 list \<Rightarrow> (fault + zx_status_t \<times> usb_device) option" where
  "usb_device_add_interfaces e parent config =
     (case NEXT_DESCRIPTOR config 0 of
        Inl f \<Rightarrow> Some (Inl f)
      | Inr header \<Rightarrow>
     (case wTotalLength config of
        Inl f \<Rightarrow> Some (Inl f)
      | Inr total_length \<Rightarrow> add_interfaces_loop e config total_length header ZX_OK parent))"

section \<open>Configuration switch\<close>

text \<open>
  The search loop of \<^verbatim>\<open>usb_device_set_configuration\<close> and of \<^verbatim>\<open>get_config_desc\<close>
  over the indices \<open>0 ..< bNumConfigurations\<close>: the first configuration whose
  \<open>bConfigurationValue\<close> equals \<open>config\<close>, with its index.
\<close>

fun find_config :: "u8 list list \<Rightarrow> int \<Rightarrow> nat list \<Rightarrow> fault + (nat \<times> u8 list) option" where
  "find_config descs config [] = Inr None"
| "find_config descs config (i # is) =
     (if i < length descs then
        (case bConfigurationValue (descs ! i) of
           Inl f \<Rightarrow> Inl f
         | Inr v \<Rightarrow> if uint v = config then Inr (Some (i, descs ! i))
                    else find_config descs config is)
      else Inl Out_of_bounds)"

definition get_config_desc :: "usb_device \<Rightarrow> int \<Rightarrow> fault + u8 list option" where
  "get_config_desc dev config =
     (case find_config (config_descs dev) config [0 ..< unat (bNumConfigurations dev)] of
        Inl f \<Rightarrow> Inl f
      | Inr None \<Rightarrow> Inr None
      | Inr (Some (i, desc)) \<Rightarrow> Inr (Some desc))"

text \<open>
  \<^verbatim>\<open>memset(dev->interface_statuses, 0, n * sizeof(interface_status_t))\<close>: the first \<open>n\<close>
  entries become \<open>AVAILABLE\<close>; the array keeps the size it was allocated with.
\<close>

definition memset_statuses :: "usb_device \<Rightarrow> nat \<Rightarrow> fault + usb_device" where
  "memset_statuses dev n =
     (if n \<le> length (interface_statuses dev)
      then Inr (dev\<lparr>interface_statuses := replicate n AVAILABLE @ drop n (interface_statuses dev)\<rparr>)
      else Inl Out_of_bounds)"

text \<open>\<^verbatim>\<open>usb_device_set_configuration\<close> (usb-device.c 641-673, usb-composite.c 97-128).\<close>

definition usb_device_set_configuration ::
  "env \<Rightarrow> usb_device \<Rightarrow> u8 \<Rightarrow> (fault + zx_status_t \<times> usb_device) option" where
  "usb_device_set_configuration e dev config =
     (case find_config (config_descs dev) (uint config) [0 ..< unat (bNumConfigurations dev)] of
        Inl f \<Rightarrow> Some (Inl f)
      | Inr None \<Rightarrow> Some (Inr (ZX_ERR_INVALID_ARGS, dev))
      | Inr (Some (config_index, config_desc)) \<Rightarrow>
          (let status = control_status e config;
               dev1 = dev\<lparr>calls := calls dev @ [Set_configuration config status]\<rparr>
           in if status \<noteq> ZX_OK then Some (Inr (status, dev1))
              else
                (let dev2 = dev1\<lparr>current_config_index := int config_index\<rparr>;
                     dev3 = usb_device_remove_interfaces dev2
                 in case bNumInterfaces config_desc of
                      Inl f \<Rightarrow> Some (Inl f)
                    | Inr n \<Rightarrow>
                        (case memset_statuses dev3 (unat n) of
                           Inl f \<Rightarrow> Some (Inl f)
                         | Inr dev4 \<Rightarrow> usb_device_add_interfaces e dev4 config_desc))))"

text \<open>\<^verbatim>\<open>usb_device_set_interface\<close> (usb-device.c 626-639).\<close>

definition usb_device_set_interface :: "env \<Rightarrow> usb_device \<Rightarrow> u8 \<Rightarrow> u8 \<Rightarrow> zx_status_t" where
  "usb_device_set_interface e dev interface_id alt_setting =
     (case find (\<lambda>intf. usb_interface_contains_interface intf interface_id) (children dev) of
        Some intf \<Rightarrow> alt_setting_status e interface_id alt_setting
      | None \<Rightarrow> ZX_ERR_INVALID_ARGS)"

section \<open>Device creation\<close>








section \<open>Request relay\<close>

text \<open>
  \<^verbatim>\<open>usb_device_request_queue\<close> (usb-device.c 605-619): the request as it is handed to
  \<^verbatim>\<open>usb_hci_request_queue\<close>.
\<close>

definition usb_device_request_queue :: "usb_device \<Rightarrow> usb_request_t \<Rightarrow> usb_request_t" where
  "usb_device_request_queue dev req =
     (let req1 = req\<lparr>header_device_id := device_id dev\<rparr>;
          req2 = req1\<lparr>saved_complete_cb := complete_cb req1\<rparr>;
          req3 = req2\<lparr>saved_cookie := cookie req2\<rparr>;
          req4 = req3\<lparr>complete_cb := Request_complete\<rparr>
      in req4\<lparr>cookie := Device_ptr\<rparr>)"

text \<open>
  \<^verbatim>\<open>request_complete\<close> (usb-device.c 86-96), called by the controller with the device as
  cookie: the request gets its saved callback and cookie back, joins the tail of
  \<open>completed_reqs\<close>, and the callback thread is signalled.
\<close>

definition request_complete :: "usb_device \<Rightarrow> usb_request_t \<Rightarrow> usb_device" where
  "request_complete dev req =
     (let req1 = req\<lparr>complete_cb := saved_complete_cb req\<rparr>;
          req2 = req1\<lparr>cookie := saved_cookie req1\<rparr>
      in dev\<lparr>completed_reqs := completed_reqs dev @ [req2], callback_thread_completion := True\<rparr>)"

section \<open>Control transfers\<close>

text \<open>
  \<^verbatim>\<open>usb_device_control\<close> acts on the request pool, the controller and a completion that
  lives on its stack. The model returns these actions in order. A wait carries its deadline.
\<close>

datatype deadline = ZX_TIME_INFINITE | Deadline nat

datatype action =
    Pool_get
  | Request_alloc nat
  | Request_copyto "u8 list"
  | Hci_request_queue usb_request_t
  | Completion_wait deadline
  | Completion_reset
  | Hci_cancel_all u32 u8
  | Request_copyfrom nat
  | Pool_add
  | Request_release

text \<open>
  What the collaborators answer during one control transfer: the request the pool holds (if
  any), the status and request of \<^verbatim>\<open>usb_request_alloc\<close>, the status of the wait with the
  caller's timeout, the status of \<^verbatim>\<open>usb_hci_cancel_all\<close>, and the response the controller
  has written into the request by the time the function reads it.
\<close>

record control_env =
  pool_req :: "usb_request_t option"
  alloc_status :: zx_status_t
  alloc_req :: usb_request_t
  wait_status :: zx_status_t
  cancel_all_status :: zx_status_t
  hci_response_status :: zx_status_t
  hci_response_actual :: nat
  hci_response_data :: "u8 list"

definition USB_DIR_MASK :: u8 where
  "USB_DIR_MASK = 0x80"

definition USB_DIR_OUT :: u8 where
  "USB_DIR_OUT = 0x00"

text \<open>The outcome: status, \<^verbatim>\<open>*out_length\<close> if written, the caller's buffer, the actions.\<close>

record control_result =
  ctl_status :: zx_status_t
  ctl_out_length :: "nat option"
  ctl_data :: "u8 list"
  ctl_actions :: "action list"

text \<open>\<^verbatim>\<open>usb_device_control\<close> (usb-device.c 534-603).\<close>

definition usb_device_control ::
  "control_env \<Rightarrow> usb_device \<Rightarrow> u8 \<Rightarrow> u8 \<Rightarrow> u16 \<Rightarrow> u16 \<Rightarrow> u8 list \<Rightarrow> nat \<Rightarrow> deadline \<Rightarrow> bool \<Rightarrow> control_result" where
  "usb_device_control ce dev request_type request value index data len timeout want_out_length =
     (let use_free_list = (len = 0);
          pooled = (if use_free_list then pool_req ce else None);
          acts0 = (if use_free_list then [Pool_get] else [])
      in case (case pooled of
                 Some r \<Rightarrow> Inr (r, acts0)
               | None \<Rightarrow> if alloc_status ce \<noteq> ZX_OK then Inl (alloc_status ce, acts0 @ [Request_alloc len])
                         else Inr (alloc_req ce, acts0 @ [Request_alloc len])) of
           Inl (status, acts) \<Rightarrow>
             \<lparr>ctl_status = status, ctl_out_length = None, ctl_data = data, ctl_actions = acts\<rparr>
         | Inr (req0, acts1) \<Rightarrow>
             (let req1 = req0\<lparr>req_setup := \<lparr>bmRequestType = request_type, bRequest = request,
                                          wValue = value, wIndex = index, wLength = of_nat len\<rparr>\<rparr>;
                  out = (and request_type USB_DIR_MASK = USB_DIR_OUT);
                  acts2 = (if len > 0 \<and> out then acts1 @ [Request_copyto (take len data)] else acts1);
                  req2 = req1\<lparr>header_device_id := device_id dev, header_length := len,
                              complete_cb := Usb_control_complete, cookie := Completion_ptr\<rparr>;
                  acts3 = acts2 @ [Hci_request_queue req2, Completion_wait timeout];
                  waited = wait_status ce;
                  (status, acts4) =
                    (if waited = ZX_OK then (hci_response_status ce, acts3)
                     else if waited = ZX_ERR_TIMED_OUT then
                       (let acts = acts3 @ [Completion_reset, Hci_cancel_all (device_id dev) 0];
                            cancelled = cancel_all_status ce
                        in if cancelled = ZX_OK
                           then (ZX_ERR_TIMED_OUT, acts @ [Completion_wait ZX_TIME_INFINITE])
                           else (cancelled, acts))
                     else (waited, acts3));
                  out_length = (if status = ZX_OK \<and> want_out_length then Some (hci_response_actual ce) else None);
                  copy_back = (status = ZX_OK \<and> len > 0 \<and> \<not> out);
                  data' = (if copy_back
                           then take (hci_response_actual ce) (hci_response_data ce) @ drop (hci_response_actual ce) data
                           else data);
                  acts5 = (if copy_back then acts4 @ [Request_copyfrom (hci_response_actual ce)] else acts4);
                  acts6 = acts5 @ [if use_free_list then Pool_add else Request_release]
              in \<lparr>ctl_status = status, ctl_out_length = out_length, ctl_data = data', ctl_actions = acts6\<rparr>))"

section \<open>Control ioctls\<close>

text \<open>The operations of the \<^verbatim>\<open>switch\<close> of \<^verbatim>\<open>usb_device_ioctl\<close>; any other is \<open>IOCTL_OTHER\<close>.\<close>

datatype ioctl_op =
    IOCTL_USB_GET_DEVICE_TYPE
  | IOCTL_USB_GET_DEVICE_SPEED
  | IOCTL_USB_GET_DEVICE_DESC
  | IOCTL_USB_GET_CONFIG_DESC_SIZE
  | IOCTL_USB_GET_DESCRIPTORS_SIZE
  | IOCTL_USB_GET_CONFIG_DESC
  | IOCTL_USB_GET_DESCRIPTORS
  | IOCTL_USB_GET_STRING_DESC
  | IOCTL_USB_SET_INTERFACE
  | IOCTL_USB_GET_CURRENT_FRAME
  | IOCTL_USB_GET_DEVICE_ID
  | IOCTL_USB_GET_DEVICE_HUB_ID
  | IOCTL_USB_GET_CONFIGURATION
  | IOCTL_USB_SET_CONFIGURATION
  | IOCTL_OTHER nat

text \<open>Little-endian images of \<^verbatim>\<open>int\<close>, \<^verbatim>\<open>uint16_t\<close> and \<^verbatim>\<open>uint64_t\<close> objects.\<close>

definition le16 :: "u16 \<Rightarrow> u8 list" where
  "le16 w = map (\<lambda>k. ucast (drop_bit (8 * k) w)) [0, 1]"

definition le32 :: "u32 \<Rightarrow> u8 list" where
  "le32 w = map (\<lambda>k. ucast (drop_bit (8 * k) w)) [0, 1, 2, 3]"

definition le64 :: "64 word \<Rightarrow> u8 list" where
  "le64 w = map (\<lambda>k. ucast (drop_bit (8 * k) w)) [0, 1, 2, 3, 4, 5, 6, 7]"

definition int_at :: "u8 list \<Rightarrow> nat \<Rightarrow> int" where
  "int_at buf k =
     sint (word_of_nat (unat (buf ! (4 * k)) + 256 * unat (buf ! (4 * k + 1))
                        + 65536 * unat (buf ! (4 * k + 2)) + 16777216 * unat (buf ! (4 * k + 3))) :: u32)"

definition sizeof_int :: nat where
  "sizeof_int = 4"

definition sizeof_uint64 :: nat where
  "sizeof_uint64 = 8"

definition sizeof_device_descriptor :: nat where
  "sizeof_device_descriptor = 18"

definition sizeof_string_desc_resp :: nat where
  "sizeof_string_desc_resp = 4"

text \<open>
  A store through \<^verbatim>\<open>out_buf\<close>: the bytes replace the head of the caller's buffer, whose
  size is \<open>out_len\<close>; a store that does not fit is a fault.
\<close>

definition store_out :: "u8 list \<Rightarrow> u8 list \<Rightarrow> fault + u8 list" where
  "store_out out_buf bytes =
     (if length bytes \<le> length out_buf then Inr (bytes @ drop (length bytes) out_buf)
      else Inl Out_of_bounds)"

type_synonym ioctl_ret = "zx_status_t \<times> usb_device \<times> u8 list \<times> nat option"

definition ioctl_fail :: "zx_status_t \<Rightarrow> usb_device \<Rightarrow> u8 list \<Rightarrow> (fault + ioctl_ret) option" where
  "ioctl_fail status dev out_buf = Some (Inr (status, dev, out_buf, None))"

definition ioctl_reply :: "usb_device \<Rightarrow> u8 list \<Rightarrow> u8 list \<Rightarrow> (fault + ioctl_ret) option" where
  "ioctl_reply dev out_buf bytes =
     (case store_out out_buf bytes of
        Inl f \<Rightarrow> Some (Inl f)
      | Inr out' \<Rightarrow> Some (Inr (ZX_OK, dev, out', Some (length bytes))))"

definition current_config :: "usb_device \<Rightarrow> fault + u8 list" where
  "current_config dev =
     (if 0 \<le> current_config_index dev \<and> nat (current_config_index dev) < length (config_descs dev)
      then Inr (config_descs dev ! nat (current_config_index dev))
      else Inl Out_of_bounds)"

text \<open>
  \<^verbatim>\<open>usb_device_ioctl\<close> (usb-device.c 189-324). \<open>in_len\<close> and \<open>out_len\<close> are the lengths of
  the two buffers. The result is the status, the device, the output buffer and
  \<^verbatim>\<open>*out_actual\<close> if it was written; \<open>None\<close> is a call that never returns. In the
  string case the source stores the request's language into the reply and then clears the
  whole output buffer, so the language it passes on is 0.
\<close>

definition usb_device_ioctl ::
  "env \<Rightarrow> usb_device \<Rightarrow> ioctl_op \<Rightarrow> u8 list \<Rightarrow> u8 list \<Rightarrow> (fault + ioctl_ret) option" where
  "usb_device_ioctl e dev op in_buf out_buf =
     (let in_len = length in_buf; out_len = length out_buf in
      case op of
        IOCTL_USB_GET_DEVICE_TYPE \<Rightarrow>
          if out_len < sizeof_int then ioctl_fail ZX_ERR_BUFFER_TOO_SMALL dev out_buf
          else ioctl_reply dev out_buf (le32 (device_type_device e))
      | IOCTL_USB_GET_DEVICE_SPEED \<Rightarrow>
          if out_len < sizeof_int then ioctl_fail ZX_ERR_BUFFER_TOO_SMALL dev out_buf
          else ioctl_reply dev out_buf (le32 (speed dev))
      | IOCTL_USB_GET_DEVICE_DESC \<Rightarrow>
          if out_len < sizeof_device_descriptor then ioctl_fail ZX_ERR_BUFFER_TOO_SMALL dev out_buf
          else (case memcpy_span (device_desc dev) 0 sizeof_device_descriptor of
                  Inl f \<Rightarrow> Some (Inl f)
                | Inr bytes \<Rightarrow> ioctl_reply dev out_buf bytes)
      | IOCTL_USB_GET_CONFIG_DESC_SIZE \<Rightarrow>
          if in_len \<noteq> sizeof_int then ioctl_fail ZX_ERR_INVALID_ARGS dev out_buf
          else (case get_config_desc dev (int_at in_buf 0) of
                  Inl f \<Rightarrow> Some (Inl f)
                | Inr None \<Rightarrow> ioctl_fail ZX_ERR_INVALID_ARGS dev out_buf
                | Inr (Some descriptor) \<Rightarrow>
                    (case wTotalLength descriptor of
                       Inl f \<Rightarrow> Some (Inl f)
                     | Inr total_length \<Rightarrow> ioctl_reply dev out_buf (le32 (word_of_nat total_length))))
      | IOCTL_USB_GET_DESCRIPTORS_SIZE \<Rightarrow>
          (case current_config dev of
             Inl f \<Rightarrow> Some (Inl f)
           | Inr descriptor \<Rightarrow>
               if out_len < sizeof_int then ioctl_fail ZX_ERR_BUFFER_TOO_SMALL dev out_buf
               else (case wTotalLength descriptor of
                       Inl f \<Rightarrow> Some (Inl f)
                     | Inr total_length \<Rightarrow> ioctl_reply dev out_buf (le32 (word_of_nat total_length))))
      | IOCTL_USB_GET_CONFIG_DESC \<Rightarrow>
          if in_len \<noteq> sizeof_int then ioctl_fail ZX_ERR_INVALID_ARGS dev out_buf
          else (case get_config_desc dev (int_at in_buf 0) of
                  Inl f \<Rightarrow> Some (Inl f)
                | Inr None \<Rightarrow> ioctl_fail ZX_ERR_INVALID_ARGS dev out_buf
                | Inr (Some descriptor) \<Rightarrow>
                    (case wTotalLength descriptor of
                       Inl f \<Rightarrow> Some (Inl f)
                     | Inr desc_length \<Rightarrow>
                         if out_len < desc_length then ioctl_fail ZX_ERR_BUFFER_TOO_SMALL dev out_buf
                         else (case memcpy_span descriptor 0 desc_length of
                                 Inl f \<Rightarrow> Some (Inl f)
                               | Inr bytes \<Rightarrow> ioctl_reply dev out_buf bytes)))
      | IOCTL_USB_GET_DESCRIPTORS \<Rightarrow>
          (case current_config dev of
             Inl f \<Rightarrow> Some (Inl f)
           | Inr descriptor \<Rightarrow>
               (case wTotalLength descriptor of
                  Inl f \<Rightarrow> Some (Inl f)
                | Inr desc_length \<Rightarrow>
                    if out_len < desc_length then ioctl_fail ZX_ERR_BUFFER_TOO_SMALL dev out_buf
                    else (case memcpy_span descriptor 0 desc_length of
                            Inl f \<Rightarrow> Some (Inl f)
                          | Inr bytes \<Rightarrow> ioctl_reply dev out_buf bytes)))
      | IOCTL_USB_GET_STRING_DESC \<Rightarrow>
          if in_len \<noteq> string_req_size e then ioctl_fail ZX_ERR_INVALID_ARGS dev out_buf
          else if out_len < sizeof_string_desc_resp then ioctl_fail ZX_ERR_INVALID_ARGS dev out_buf
          else
            (let max_space = out_len - sizeof_string_desc_resp;
                 zeroed = replicate out_len (0 :: u8)
             in case string_req e in_buf of (desc_id, req_lang_id) \<Rightarrow>
                case string_descriptor e desc_id 0 max_space of (result, lang_id, encoded) \<Rightarrow>
                  if result \<noteq> ZX_OK then Some (Inr (result, dev, zeroed, None))
                  else
                    (let encoded_len = length encoded;
                         stored = take max_space encoded
                     in case store_out zeroed (le16 lang_id @ le16 (word_of_nat encoded_len) @ stored) of
                          Inl f \<Rightarrow> Some (Inl f)
                        | Inr out' \<Rightarrow>
                            Some (Inr (ZX_OK, dev, out',
                                       Some (max out_len (sizeof_string_desc_resp + encoded_len))))))
      | IOCTL_USB_SET_INTERFACE \<Rightarrow>
          if in_len \<noteq> 2 * sizeof_int then ioctl_fail ZX_ERR_INVALID_ARGS dev out_buf
          else ioctl_fail (usb_device_set_interface e dev (word_of_int (int_at in_buf 0))
                             (word_of_int (int_at in_buf 1))) dev out_buf
      | IOCTL_USB_GET_CURRENT_FRAME \<Rightarrow>
          if out_len < sizeof_uint64 then ioctl_fail ZX_ERR_BUFFER_TOO_SMALL dev out_buf
          else ioctl_reply dev out_buf (le64 (current_frame e))
      | IOCTL_USB_GET_DEVICE_ID \<Rightarrow>
          if out_len < sizeof_uint64 then ioctl_fail ZX_ERR_BUFFER_TOO_SMALL dev out_buf
          else ioctl_reply dev out_buf (le64 (ucast (device_id dev)))
      | IOCTL_USB_GET_DEVICE_HUB_ID \<Rightarrow>
          if out_len < sizeof_uint64 then ioctl_fail ZX_ERR_BUFFER_TOO_SMALL dev out_buf
          else ioctl_reply dev out_buf (le64 (ucast (hub_id dev)))
      | IOCTL_USB_GET_CONFIGURATION \<Rightarrow>
          if out_len \<noteq> sizeof_int then ioctl_fail ZX_ERR_INVALID_ARGS dev out_buf
          else (case current_config dev of
                  Inl f \<Rightarrow> Some (Inl f)
                | Inr descriptor \<Rightarrow>
                    (case bConfigurationValue descriptor of
                       Inl f \<Rightarrow> Some (Inl f)
                     | Inr v \<Rightarrow> ioctl_reply dev out_buf (le32 (ucast v))))
      | IOCTL_USB_SET_CONFIGURATION \<Rightarrow>
          if in_len \<noteq> sizeof_int then ioctl_fail ZX_ERR_INVALID_ARGS dev out_buf
          else (case usb_device_set_configuration e dev (word_of_int (int_at in_buf 0)) of
                  None \<Rightarrow> None
                | Some (Inl f) \<Rightarrow> Some (Inl f)
                | Some (Inr (status, dev')) \<Rightarrow> Some (Inr (status, dev', out_buf, None)))
      | IOCTL_OTHER n \<Rightarrow> ioctl_fail ZX_ERR_NOT_SUPPORTED dev out_buf)"

section \<open>Operations of one configuration epoch\<close>



text \<open>
  What a step of the registry keeps: the size of the status array, every \<open>CLAIMED\<close> entry,
  the configurations and the current index; and what it adds to the calls: no
  \<open>SET_CONFIGURATION\<close>, and single-interface publications only of interfaces that were not
  \<open>CLAIMED\<close>.
\<close>

definition publishes_unclaimed :: "usb_device \<Rightarrow> call list \<Rightarrow> bool" where
  "publishes_unclaimed dev new \<longleftrightarrow>
     (\<forall>span st. Device_add_interface span st \<in> set new \<longrightarrow>
        (\<exists>n. bInterfaceNumber span 0 = Inr n \<and> unat n < length (interface_statuses dev) \<and>
             interface_statuses dev ! unat n \<noteq> CLAIMED))"

definition registry_kept :: "usb_device \<Rightarrow> usb_device \<Rightarrow> bool" where
  "registry_kept dev dev' \<longleftrightarrow>
     length (interface_statuses dev') = length (interface_statuses dev) \<and>
     (\<forall>j < length (interface_statuses dev).
        interface_statuses dev ! j = CLAIMED \<longrightarrow> interface_statuses dev' ! j = CLAIMED) \<and>
     (\<exists>new. calls dev' = calls dev @ new \<and> publishes_unclaimed dev new \<and>
            (\<forall>cfg st. Set_configuration cfg st \<notin> set new)) \<and>
     current_config_index dev' = current_config_index dev \<and>
     config_descs dev' = config_descs dev \<and>
     bNumConfigurations dev' = bNumConfigurations dev"

text \<open>The device state a pass of the loop hands on.\<close>

fun flow_device :: "flow \<Rightarrow> usb_device" where
  "flow_device (Return st dev) = dev"
| "flow_device (Continue st dev) = dev"

text \<open>
  A child in \<open>children\<close> after a step was there before or was added by a publication the
  framework accepted during the step.
\<close>

definition added :: "usb_interface_t \<Rightarrow> call list \<Rightarrow> bool" where
  "added c new \<longleftrightarrow>
     Device_add_interface (descriptors c) ZX_OK \<in> set new \<or>
     Device_add_association (descriptors c) ZX_OK \<in> set new"

definition children_added :: "usb_device \<Rightarrow> usb_device \<Rightarrow> bool" where
  "children_added dev dev' \<longleftrightarrow>
     (\<exists>new. calls dev' = calls dev @ new \<and>
            (\<forall>c \<in> set (children dev'). c \<in> set (children dev) \<or> added c new))"

text \<open>
  How a walk changes the statuses: an entry stays as it was, or it is \<open>CHILD_DEVICE\<close> and
  the walk handed the framework a single-interface child for it, or it is \<open>CLAIMED\<close> and a
  driver claimed it while the framework was adding a child it accepted.
\<close>

definition published_single :: "nat \<Rightarrow> call list \<Rightarrow> bool" where
  "published_single j new \<longleftrightarrow>
     (\<exists>span st n. Device_add_interface span st \<in> set new \<and>
                  bInterfaceNumber span 0 = Inr n \<and> unat n = j)"

definition claimed_during :: "env \<Rightarrow> nat \<Rightarrow> call list \<Rightarrow> bool" where
  "claimed_during e j new \<longleftrightarrow>
     (\<exists>span n. (Device_add_interface span ZX_OK \<in> set new \<or>
                Device_add_association span ZX_OK \<in> set new) \<and>
               n \<in> set (bind_claims e span) \<and> unat n = j)"

definition marked :: "env \<Rightarrow> usb_device \<Rightarrow> usb_device \<Rightarrow> bool" where
  "marked e dev dev' \<longleftrightarrow>
     length (interface_statuses dev') = length (interface_statuses dev) \<and>
     (\<exists>new. calls dev' = calls dev @ new \<and>
        (\<forall>j < length (interface_statuses dev).
           interface_statuses dev' ! j = interface_statuses dev ! j \<or>
           (interface_statuses dev' ! j = CHILD_DEVICE \<and> published_single j new) \<or>
           (interface_statuses dev' ! j = CLAIMED \<and> claimed_during e j new)))"

text \<open>
  The device as the configuration switch hands it to the walk: \<open>SET_CONFIGURATION\<close> done,
  the new index stored, every child removed, the first \<open>m\<close> statuses \<open>AVAILABLE\<close>.
\<close>

definition switched :: "usb_device \<Rightarrow> u8 \<Rightarrow> nat \<Rightarrow> nat \<Rightarrow> usb_device" where
  "switched dev config k m =
     dev\<lparr>calls := calls dev @ Set_configuration config ZX_OK # map Device_remove (children dev),
         current_config_index := int k, children := [],
         interface_statuses := replicate m AVAILABLE @ drop m (interface_statuses dev)\<rparr>"

section \<open>Descriptor groups\<close>

text \<open>
  A descriptor as a list of its bytes: it has the two bytes of its header, it is as long as
  its \<open>bLength\<close> says, and an interface or interface association descriptor is long enough
  for the fields the walk reads.
\<close>

definition desc_ok :: "u8 list \<Rightarrow> bool" where
  "desc_ok d \<longleftrightarrow>
     2 \<le> length d \<and> unat (d ! 0) = length d \<and>
     (d ! 1 = USB_DT_INTERFACE \<or> d ! 1 = USB_DT_INTERFACE_ASSOCIATION \<longrightarrow> 4 \<le> length d)"

text \<open>
  A well-formed configuration blob: the 9-byte configuration header, whose \<open>wTotalLength\<close>
  is the size of the blob, followed by the descriptors \<open>ds\<close>, one after the other.
\<close>

definition config_ok :: "u8 list \<Rightarrow> u8 list list \<Rightarrow> bool" where
  "config_ok config ds \<longleftrightarrow>
     9 \<le> length config \<and> config ! 0 = 9 \<and> config ! 1 = 2 \<and>
     wTotalLength config = Inr (length config) \<and>
     config = take 9 config @ concat ds \<and> list_all desc_ok ds"

text \<open>
  The kinds of descriptor the walk tells apart: an interface association, an interface, a
  top-level interface (alternate setting 0), and any other, which the outer loop passes over.
\<close>

definition is_assoc :: "u8 list \<Rightarrow> bool" where
  "is_assoc d \<longleftrightarrow> d ! 1 = USB_DT_INTERFACE_ASSOCIATION"

definition is_intf :: "u8 list \<Rightarrow> bool" where
  "is_intf d \<longleftrightarrow> d ! 1 = USB_DT_INTERFACE"

definition top_level :: "u8 list \<Rightarrow> bool" where
  "top_level d \<longleftrightarrow> d ! 1 = USB_DT_INTERFACE \<and> d ! 3 = 0"

definition skipped :: "u8 list \<Rightarrow> bool" where
  "skipped d \<longleftrightarrow> \<not> is_assoc d \<and> \<not> is_intf d"

text \<open>
  The grouping of section 4.1 of the specification, on lists of descriptors. After an
  interface association with \<open>bInterfaceCount = n\<close> the group goes on up to the next
  association, up to the top-level interface that follows \<open>n\<close> consumed ones, or to the end.
  After an interface it goes on up to the next top-level interface or to the end.
\<close>

fun assoc_members :: "nat \<Rightarrow> u8 list list \<Rightarrow> u8 list list" where
  "assoc_members n [] = []"
| "assoc_members n (d # ds) =
     (if is_assoc d then []
      else if top_level d then (case n of 0 \<Rightarrow> [] | Suc k \<Rightarrow> d # assoc_members k ds)
      else d # assoc_members n ds)"

definition intf_members :: "u8 list list \<Rightarrow> u8 list list" where
  "intf_members ds = takeWhile (\<lambda>d. \<not> top_level d) ds"

text \<open>The groups of a descriptor list, in order; descriptors before the first group are in none.\<close>

function spec_groups :: "u8 list list \<Rightarrow> u8 list list list" where
  "spec_groups [] = []"
| "spec_groups (d # ds) =
     (if is_assoc d then
        (d # assoc_members (unat (d ! 3)) ds) #
          spec_groups (drop (length (assoc_members (unat (d ! 3)) ds)) ds)
      else if is_intf d then
        (d # intf_members ds) # spec_groups (drop (length (intf_members ds)) ds)
      else spec_groups ds)"
  by pat_completeness auto
termination
  by (relation "measure length") auto

text \<open>
  Collaborators under which every group is published: no allocation fails and no driver
  claims an interface while a child is added. \<^verbatim>\<open>device_add\<close> may answer anything.
\<close>

definition quiet :: "env \<Rightarrow> bool" where
  "quiet e \<longleftrightarrow> (\<forall>n. malloc_ok e n) \<and> (\<forall>span. bind_claims e span = [])"

text \<open>The publication of a group, as it appears among the calls.\<close>

definition group_call :: "env \<Rightarrow> u8 list list \<Rightarrow> call" where
  "group_call e g =
     (if is_assoc (hd g) then Device_add_association (concat g) (device_add_status e (concat g))
      else Device_add_interface (concat g) (device_add_status e (concat g)))"

text \<open>
  The interface numbers under which the single-interface groups are published, and the
  condition that each is published: the numbers differ, lie inside the status array and are
  \<open>AVAILABLE\<close>.
\<close>

definition single_heads :: "u8 list list \<Rightarrow> u8 list" where
  "single_heads ds = map (\<lambda>g. hd g ! 2) (filter (\<lambda>g. is_intf (hd g)) (spec_groups ds))"

definition heads_available :: "usb_device \<Rightarrow> u8 list list \<Rightarrow> bool" where
  "heads_available dev ds \<longleftrightarrow>
     distinct (single_heads ds) \<and>
     (\<forall>n \<in> set (single_heads ds).
        unat n < length (interface_statuses dev) \<and> interface_statuses dev ! unat n = AVAILABLE)"

text \<open>The device after one publication that no driver answers with a claim.\<close>

definition with_child :: "env \<Rightarrow> usb_device \<Rightarrow> call \<Rightarrow> u8 \<Rightarrow> u8 list \<Rightarrow> usb_device" where
  "with_child e dev c n span =
     dev\<lparr>calls := calls dev @ [c],
         children := (if device_add_status e span = ZX_OK
                      then \<lparr>interface_number = n, descriptors = span\<rparr> # children dev
                      else children dev)\<rparr>"

text \<open>The descriptor spans of the groups handed to the framework, in the order of the calls.\<close>

fun published_spans :: "call list \<Rightarrow> u8 list list" where
  "published_spans [] = []"
| "published_spans (Device_add_interface span st # cs) = span # published_spans cs"
| "published_spans (Device_add_association span st # cs) = span # published_spans cs"
| "published_spans (c # cs) = published_spans cs"

section \<open>Example devices\<close>

text \<open>
  Collaborators that never refuse: every allocation and every \<^verbatim>\<open>device_add\<close> succeeds,
  no driver claims an interface while a child is added, every control transfer succeeds.
\<close>

definition quiet_env :: env where
  "quiet_env = \<lparr>malloc_ok = (\<lambda>n. True), device_add_status = (\<lambda>span. ZX_OK),
     bind_claims = (\<lambda>span. []), control_status = (\<lambda>config. ZX_OK),
     alt_setting_status = (\<lambda>i alt. ZX_OK), current_frame = 0,
     string_descriptor = (\<lambda>desc_id lang_id space. (ZX_OK, lang_id, [])),
     string_req_size = 4, string_req = (\<lambda>buf. (0, 0)), device_type_device = 1\<rparr>"

text \<open>A configuration with the two interfaces 0 and 1, each a bare interface descriptor.\<close>

definition config_two_interfaces :: "u8 list" where
  "config_two_interfaces =
     [9, 2, 27, 0, 2, 1, 0, 0x80, 50,
      9, 4, 0, 0, 0, 255, 0, 0, 0,
      9, 4, 1, 0, 0, 255, 0, 0, 0]"

text \<open>
  A device as \<^verbatim>\<open>usb_device_add\<close> leaves it before the first walk: the given
  configurations, the first one current, \<open>n\<close> interface statuses, all \<open>AVAILABLE\<close>.
\<close>

definition fresh_device :: "u8 list list \<Rightarrow> nat \<Rightarrow> usb_device" where
  "fresh_device configs n =
     \<lparr>device_id = 0, hub_id = 0, speed = 2, device_desc = replicate 18 0,
      bNumConfigurations = word_of_nat (length configs), config_descs = configs,
      current_config_index = 0, interface_statuses = replicate n AVAILABLE, children = [],
      completed_reqs = [], callback_thread_completion = False, calls = []\<rparr>"

text \<open>The two-interface device after both interfaces were published.\<close>

definition two_children_device :: usb_device where
  "two_children_device =
     (fresh_device [config_two_interfaces] 2)
       \<lparr>interface_statuses := [CHILD_DEVICE, CHILD_DEVICE],
        children := [\<lparr>interface_number = 1, descriptors = [9, 4, 1, 0, 0, 255, 0, 0, 0]\<rparr>,
                     \<lparr>interface_number = 0, descriptors = [9, 4, 0, 0, 0, 255, 0, 0, 0]\<rparr>]\<rparr>"

text \<open>A request as a client hands it in, and the collaborators of a control transfer whose
  wait times out, with the status that \<^verbatim>\<open>usb_hci_cancel_all\<close> answers.\<close>

definition blank_request :: usb_request_t where
  "blank_request =
     \<lparr>req_setup = \<lparr>bmRequestType = 0, bRequest = 0, wValue = 0, wIndex = 0, wLength = 0\<rparr>,
      header_device_id = 0, header_length = 0,
      complete_cb = Client_callback 0, cookie = Client_cookie 0,
      saved_complete_cb = Client_callback 0, saved_cookie = Client_cookie 0,
      response_status = ZX_OK, response_actual = 0, buffer = []\<rparr>"

definition timeout_env :: "zx_status_t \<Rightarrow> control_env" where
  "timeout_env cancelled =
     \<lparr>pool_req = None, alloc_status = ZX_OK, alloc_req = blank_request,
      wait_status = ZX_ERR_TIMED_OUT, cancel_all_status = cancelled,
      hci_response_status = ZX_OK, hci_response_actual = 0, hci_response_data = []\<rparr>"


text \<open>
  A configuration with the single interface 0, selected by the value 2, and the device with
  both configurations after the first one (two interfaces) was published.
\<close>

definition config_one_interface :: "u8 list" where
  "config_one_interface =
     [9, 2, 18, 0, 1, 2, 0, 0x80, 50,
      9, 4, 0, 0, 0, 255, 0, 0, 0]"

definition two_configs_device :: usb_device where
  "two_configs_device =
     two_children_device\<lparr>bNumConfigurations := 2,
        config_descs := [config_two_interfaces, config_one_interface]\<rparr>"

text \<open>
  Three more configurations: one whose header is followed by an OTG descriptor and then
  interface 0; a video function, an association of two interfaces of which the second has an
  alternate setting; and interface 0 followed by an association of the single interface 1.
\<close>

definition config_with_otg :: "u8 list" where
  "config_with_otg =
     [9, 2, 21, 0, 1, 1, 0, 0x80, 50,
      3, 9, 0,
      9, 4, 0, 0, 0, 255, 0, 0, 0]"

definition config_video :: "u8 list" where
  "config_video =
     [9, 2, 44, 0, 2, 1, 0, 0x80, 50,
      8, 11, 0, 2, 14, 3, 0, 0,
      9, 4, 0, 0, 0, 14, 1, 0, 0,
      9, 4, 1, 0, 0, 14, 2, 0, 0,
      9, 4, 1, 1, 0, 14, 2, 0, 0]"

definition config_interface_then_association :: "u8 list" where
  "config_interface_then_association =
     [9, 2, 35, 0, 2, 1, 0, 0x80, 50,
      9, 4, 0, 0, 0, 3, 0, 0, 0,
      8, 11, 1, 1, 255, 0, 0, 0,
      9, 4, 1, 0, 0, 255, 0, 0, 0]"

text \<open>
  Two configurations with one association that announces two interfaces: in the first a
  single interface follows it, in the second two interface descriptors with the number 0.
\<close>

definition config_short_association :: "u8 list" where
  "config_short_association =
     [9, 2, 26, 0, 1, 1, 0, 0x80, 50,
      8, 11, 0, 2, 255, 0, 0, 0,
      9, 4, 0, 0, 0, 255, 0, 0, 0]"

definition config_repeated_interface :: "u8 list" where
  "config_repeated_interface =
     [9, 2, 35, 0, 1, 1, 0, 0x80, 50,
      8, 11, 0, 2, 255, 0, 0, 0,
      9, 4, 0, 0, 0, 255, 0, 0, 0,
      9, 4, 0, 0, 0, 255, 0, 0, 0]"

text \<open>Collaborators among which a driver claims interface 0 whenever a child is added.\<close>

definition claiming_env :: env where
  "claiming_env = quiet_env\<lparr>bind_claims := \<lambda>span. [0]\<rparr>"




section \<open>Properties\<close>

subsection \<open>The walk and descriptors of length zero\<close>

text \<open>
  A descriptor that is neither an interface nor an interface association is passed over by
  \<^verbatim>\<open>header = NEXT_DESCRIPTOR(header)\<close>. With \<open>bLength = 0\<close> the pointer does not move,
  and the loop has no other exit.
\<close>

lemma loop_stuck_aux:
  assumes "add_interfaces_loop e config end header result parent = Some y"
  shows "\<not> (header < end \<and>
            (\<exists>ty. bDescriptorType config header = Inr ty \<and>
                  ty \<noteq> USB_DT_INTERFACE_ASSOCIATION \<and> ty \<noteq> USB_DT_INTERFACE) \<and>
            bLength config header = Inr 0)"
  using assms
proof (induction rule: add_interfaces_loop.raw_induct[rotated 1, consumes 1, case_names step])
  case (step loop e config endp header result parent y)
  show ?case
  proof
    assume stuck: "header < endp \<and>
            (\<exists>ty. bDescriptorType config header = Inr ty \<and>
                  ty \<noteq> USB_DT_INTERFACE_ASSOCIATION \<and> ty \<noteq> USB_DT_INTERFACE) \<and>
            bLength config header = Inr 0"
    with step(2) have "loop e config endp header result parent = Some y"
      by (auto simp: NEXT_DESCRIPTOR_def)
    from step(1)[OF this] stuck show False by blast
  qed
qed

lemma loop_stuck:
  assumes "header < end" and "bDescriptorType config header = Inr ty"
    and "ty \<noteq> USB_DT_INTERFACE_ASSOCIATION" and "ty \<noteq> USB_DT_INTERFACE"
    and "bLength config header = Inr 0"
  shows "add_interfaces_loop e config end header result parent = None"
proof (cases "add_interfaces_loop e config end header result parent")
  case None
  then show ?thesis .
next
  case (Some y)
  from loop_stuck_aux[OF this] assms show ?thesis by blast
qed

text \<open>
  C1. The claim: a descriptor whose \<open>bLength\<close> is 0 is a fatal parse error and the walk
  returns on every blob. The code on the 11-byte configuration whose header is followed by
  one endpoint descriptor of length 0: \<^verbatim>\<open>usb_device_add_interfaces\<close> has no value, for
  every device state and every behaviour of the collaborators; the walk never returns.
\<close>

theorem walk_zero_bLength_never_returns:
  "usb_device_add_interfaces e parent [9, 2, 11, 0, 1, 1, 0, 0x80, 50, 0, 5] = None"
proof -
  let ?config = "[9, 2, 11, 0, 1, 1, 0, 0x80, 50, 0, 5] :: u8 list"
  have "add_interfaces_loop e ?config 11 9 ZX_OK parent = None"
    by (rule loop_stuck[where ty = 5])
       (simp_all add: bDescriptorType_def bLength_def rd8_def
          USB_DT_INTERFACE_def USB_DT_INTERFACE_ASSOCIATION_def)
  then show ?thesis
    by (simp add: usb_device_add_interfaces_def NEXT_DESCRIPTOR_def bLength_def
          wTotalLength_def rd8_def)
qed

subsection \<open>Claiming an interface\<close>

lemma remove_first_None: "remove_first i cs = None \<longleftrightarrow> (\<forall>c \<in> set cs. interface_number c \<noteq> i)"
  by (induction cs) (auto simp: usb_interface_contains_interface_def split: option.splits)

lemma remove_first_Some:
  "remove_first i cs = Some (c, rest) \<Longrightarrow>
     c \<in> set cs \<and> interface_number c = i \<and> rest = remove1 c cs"
  by (induction cs arbitrary: rest)
     (auto simp: usb_interface_contains_interface_def split: option.splits if_splits)

text \<open>
  C3. For an interface number \<open>i\<close> inside the status array, \<^verbatim>\<open>usb_device_claim_interface\<close>
  answers by the status of \<open>i\<close>. \<open>CLAIMED\<close>: \<open>ZX_ERR_ALREADY_BOUND\<close>, nothing changes.
  \<open>CHILD_DEVICE\<close>: if no child owns \<open>i\<close>, \<open>ZX_ERR_BAD_STATE\<close> and nothing changes; otherwise
  one child that owns \<open>i\<close> leaves the children, the framework's remove is called on it exactly
  once, and the status becomes \<open>CLAIMED\<close>. \<open>AVAILABLE\<close>: the status becomes \<open>CLAIMED\<close> and the
  call succeeds with nothing else changed.
\<close>

theorem claim_interface_by_status:
  assumes "unat i < length (interface_statuses dev)"
  shows "case interface_statuses dev ! unat i of
      CLAIMED \<Rightarrow> usb_device_claim_interface dev i = Inr (ZX_ERR_ALREADY_BOUND, dev)
    | CHILD_DEVICE \<Rightarrow>
        (if \<forall>c \<in> set (children dev). interface_number c \<noteq> i
         then usb_device_claim_interface dev i = Inr (ZX_ERR_BAD_STATE, dev)
         else \<exists>intf \<in> set (children dev). interface_number intf = i \<and>
              usb_device_claim_interface dev i =
                Inr (ZX_OK, dev\<lparr>children := remove1 intf (children dev),
                                 calls := calls dev @ [Device_remove intf],
                                 interface_statuses := (interface_statuses dev)[unat i := CLAIMED]\<rparr>))
    | AVAILABLE \<Rightarrow>
        usb_device_claim_interface dev i =
          Inr (ZX_OK, dev\<lparr>interface_statuses := (interface_statuses dev)[unat i := CLAIMED]\<rparr>)"
proof (cases "interface_statuses dev ! unat i")
  case AVAILABLE
  with assms show ?thesis
    by (simp add: usb_device_claim_interface_def status_at_def set_status_def)
next
  case CLAIMED
  with assms show ?thesis
    by (simp add: usb_device_claim_interface_def status_at_def)
next
  case CHILD_DEVICE
  show ?thesis
  proof (cases "remove_first i (children dev)")
    case None
    then have "\<forall>c \<in> set (children dev). interface_number c \<noteq> i"
      by (simp add: remove_first_None)
    with None CHILD_DEVICE assms show ?thesis
      by (simp add: usb_device_claim_interface_def status_at_def
            usb_device_remove_interface_by_id_locked_def)
  next
    case (Some found)
    obtain intf rest where found: "found = (intf, rest)" by (cases found)
    from Some found have r: "intf \<in> set (children dev)" "interface_number intf = i"
        "rest = remove1 intf (children dev)"
      using remove_first_Some by blast+
    from r have ex: "\<not> (\<forall>c \<in> set (children dev). interface_number c \<noteq> i)" by blast
    from Some found CHILD_DEVICE assms r have
      "usb_device_claim_interface dev i =
         Inr (ZX_OK, dev\<lparr>children := remove1 intf (children dev),
                          calls := calls dev @ [Device_remove intf],
                          interface_statuses := (interface_statuses dev)[unat i := CLAIMED]\<rparr>)"
      by (simp add: usb_device_claim_interface_def status_at_def set_status_def
            usb_device_remove_interface_by_id_locked_def)
    with r ex CHILD_DEVICE show ?thesis by auto
  qed
qed

theorem claim_interface_by_status_witness:
  "unat (1 :: u8) < length (interface_statuses two_children_device) \<and>
   usb_device_claim_interface two_children_device 1 =
     Inr (ZX_OK, two_children_device
            \<lparr>children := [\<lparr>interface_number = 0, descriptors = [9, 4, 0, 0, 0, 255, 0, 0, 0]\<rparr>],
             calls := [Device_remove \<lparr>interface_number = 1, descriptors = [9, 4, 1, 0, 0, 255, 0, 0, 0]\<rparr>],
             interface_statuses := [CHILD_DEVICE, CLAIMED]\<rparr>) \<and>
   usb_device_claim_interface
     (two_children_device
            \<lparr>children := [\<lparr>interface_number = 0, descriptors = [9, 4, 0, 0, 0, 255, 0, 0, 0]\<rparr>],
             calls := [Device_remove \<lparr>interface_number = 1, descriptors = [9, 4, 1, 0, 0, 255, 0, 0, 0]\<rparr>],
             interface_statuses := [CHILD_DEVICE, CLAIMED]\<rparr>) 1 =
     Inr (ZX_ERR_ALREADY_BOUND, two_children_device
            \<lparr>children := [\<lparr>interface_number = 0, descriptors = [9, 4, 0, 0, 0, 255, 0, 0, 0]\<rparr>],
             calls := [Device_remove \<lparr>interface_number = 1, descriptors = [9, 4, 1, 0, 0, 255, 0, 0, 0]\<rparr>],
             interface_statuses := [CHILD_DEVICE, CLAIMED]\<rparr>)"
  using claim_interface_by_status[of 1 two_children_device]
    claim_interface_by_status[of 1 "two_children_device
            \<lparr>children := [\<lparr>interface_number = 0, descriptors = [9, 4, 0, 0, 0, 255, 0, 0, 0]\<rparr>],
             calls := [Device_remove \<lparr>interface_number = 1, descriptors = [9, 4, 1, 0, 0, 255, 0, 0, 0]\<rparr>],
             interface_statuses := [CHILD_DEVICE, CLAIMED]\<rparr>"]
  by (simp add: two_children_device_def fresh_device_def)

subsection \<open>Request relay\<close>

text \<open>
  C8. \<^verbatim>\<open>usb_device_request_queue\<close> hands the controller the client's request with the
  device id stamped, the client's callback and cookie in the saved fields, and the relay's
  callback and the device as callback and cookie. When the controller has filled in the
  response and calls \<^verbatim>\<open>request_complete\<close>, the request appended to \<open>completed_reqs\<close> for
  the callback thread carries the client's callback and cookie again: saving and restoring
  is the identity on the two fields.
\<close>

theorem relay_save_restore:
  "usb_device_request_queue dev req =
     req\<lparr>header_device_id := device_id dev,
         saved_complete_cb := complete_cb req, saved_cookie := cookie req,
         complete_cb := Request_complete, cookie := Device_ptr\<rparr> \<and>
   request_complete dev'
     ((usb_device_request_queue dev req)
        \<lparr>response_status := status, response_actual := actual, buffer := filled\<rparr>) =
     dev'\<lparr>completed_reqs := completed_reqs dev' @
             [req\<lparr>header_device_id := device_id dev,
                  saved_complete_cb := complete_cb req, saved_cookie := cookie req,
                  response_status := status, response_actual := actual, buffer := filled\<rparr>],
          callback_thread_completion := True\<rparr> \<and>
   complete_cb (last (completed_reqs (request_complete dev'
     ((usb_device_request_queue dev req)
        \<lparr>response_status := status, response_actual := actual, buffer := filled\<rparr>)))) = complete_cb req \<and>
   cookie (last (completed_reqs (request_complete dev'
     ((usb_device_request_queue dev req)
        \<lparr>response_status := status, response_actual := actual, buffer := filled\<rparr>)))) = cookie req"
  by (simp add: usb_device_request_queue_def request_complete_def Let_def)

subsection \<open>Control transfer time-out\<close>

text \<open>
  C5, as amended. When the wait with the caller's timeout expires (and a request was
  obtained), \<^verbatim>\<open>usb_device_control\<close> resets the completion and calls
  \<^verbatim>\<open>usb_hci_cancel_all\<close> on the device's endpoint 0 exactly once. If the cancel succeeds it
  waits without deadline, then pools or releases the request and returns
  \<open>ZX_ERR_TIMED_OUT\<close>. If the cancel fails it does not wait: it pools or releases the request
  at once and returns the status of the cancel. No data and no length go back to the caller.
\<close>

theorem control_timeout:
  assumes "wait_status ce = ZX_ERR_TIMED_OUT"
    and "(len = 0 \<and> pool_req ce \<noteq> None) \<or> alloc_status ce = ZX_OK"
  shows "\<exists>before req.
      set before \<subseteq> {Pool_get, Request_alloc len, Request_copyto (take len data)} \<and>
      ctl_actions (usb_device_control ce dev request_type request value index data len timeout want) =
        before @ [Hci_request_queue req, Completion_wait timeout, Completion_reset,
                  Hci_cancel_all (device_id dev) 0] @
        (if cancel_all_status ce = ZX_OK then [Completion_wait ZX_TIME_INFINITE] else []) @
        [if len = 0 then Pool_add else Request_release] \<and>
      ctl_status (usb_device_control ce dev request_type request value index data len timeout want) =
        (if cancel_all_status ce = ZX_OK then ZX_ERR_TIMED_OUT else cancel_all_status ce) \<and>
      ctl_out_length (usb_device_control ce dev request_type request value index data len timeout want) = None \<and>
      ctl_data (usb_device_control ce dev request_type request value index data len timeout want) = data"
  using assms
  by (auto simp: usb_device_control_def Let_def split: option.splits)

theorem control_timeout_witness:
  "wait_status (timeout_env ZX_OK) = ZX_ERR_TIMED_OUT \<and>
   ctl_status (usb_device_control (timeout_env ZX_OK) (fresh_device [] 0) 0 9 1 0 [] 0 (Deadline 10) False)
     = ZX_ERR_TIMED_OUT \<and>
   ctl_actions (usb_device_control (timeout_env ZX_OK) (fresh_device [] 0) 0 9 1 0 [] 0 (Deadline 10) False)
     = [Pool_get, Request_alloc 0,
        Hci_request_queue (blank_request\<lparr>req_setup := \<lparr>bmRequestType = 0, bRequest = 9, wValue = 1, wIndex = 0, wLength = 0\<rparr>,
            complete_cb := Usb_control_complete, cookie := Completion_ptr\<rparr>),
        Completion_wait (Deadline 10), Completion_reset, Hci_cancel_all 0 0,
        Completion_wait ZX_TIME_INFINITE, Pool_add]"
  using control_timeout[of "timeout_env ZX_OK" 0 "[]" "fresh_device [] 0" 0 9 1 0 "Deadline 10" False]
  by (simp add: timeout_env_def usb_device_control_def Let_def fresh_device_def blank_request_def
      USB_DIR_MASK_def USB_DIR_OUT_def)

text \<open>
  C5 as stated fails where \<^verbatim>\<open>usb_hci_cancel_all\<close> answers an error: the transfer returns
  that error, not \<open>ZX_ERR_TIMED_OUT\<close>, and never waits for the late completion.
\<close>

theorem control_timeout_cancel_fails:
  "wait_status (timeout_env ZX_ERR_IO) = ZX_ERR_TIMED_OUT \<and>
   ctl_status (usb_device_control (timeout_env ZX_ERR_IO) (fresh_device [] 0) 0 9 1 0 [] 0 (Deadline 10) False)
     = ZX_ERR_IO \<and>
   Completion_wait ZX_TIME_INFINITE \<notin>
     set (ctl_actions (usb_device_control (timeout_env ZX_ERR_IO) (fresh_device [] 0) 0 9 1 0 [] 0 (Deadline 10) False))"
  by (simp add: timeout_env_def usb_device_control_def Let_def fresh_device_def blank_request_def
      USB_DIR_MASK_def USB_DIR_OUT_def)

subsection \<open>Ioctl output buffers\<close>

text \<open>
  C9, as amended. With an output buffer shorter than the reply, the operations
  \<open>GET_DEVICE_TYPE\<close>, \<open>GET_DEVICE_SPEED\<close>, \<open>GET_DEVICE_DESC\<close>, \<open>GET_CURRENT_FRAME\<close>,
  \<open>GET_DEVICE_ID\<close>, \<open>GET_DEVICE_HUB_ID\<close>, \<open>GET_DESCRIPTORS_SIZE\<close>, \<open>GET_DESCRIPTORS\<close> and
  (for a well-sized input naming an existing configuration) \<open>GET_CONFIG_DESC\<close> return
  \<open>ZX_ERR_BUFFER_TOO_SMALL\<close> and leave the output buffer and \<^verbatim>\<open>*out_actual\<close> untouched.
  \<open>GET_CONFIGURATION\<close>, for every output length other than the size of an \<^verbatim>\<open>int\<close>, and
  \<open>GET_STRING_DESC\<close>, for an output shorter than the reply header, return
  \<open>ZX_ERR_INVALID_ARGS\<close> instead, writing nothing. Nothing is said of
  \<open>GET_CONFIG_DESC_SIZE\<close>.
\<close>

theorem ioctl_short_output:
  "(op \<in> {IOCTL_USB_GET_DEVICE_TYPE, IOCTL_USB_GET_DEVICE_SPEED} \<and> length out_buf < 4 \<longrightarrow>
      usb_device_ioctl e dev op in_buf out_buf = Some (Inr (ZX_ERR_BUFFER_TOO_SMALL, dev, out_buf, None))) \<and>
   (op = IOCTL_USB_GET_DEVICE_DESC \<and> length out_buf < 18 \<longrightarrow>
      usb_device_ioctl e dev op in_buf out_buf = Some (Inr (ZX_ERR_BUFFER_TOO_SMALL, dev, out_buf, None))) \<and>
   (op \<in> {IOCTL_USB_GET_CURRENT_FRAME, IOCTL_USB_GET_DEVICE_ID, IOCTL_USB_GET_DEVICE_HUB_ID} \<and>
      length out_buf < 8 \<longrightarrow>
      usb_device_ioctl e dev op in_buf out_buf = Some (Inr (ZX_ERR_BUFFER_TOO_SMALL, dev, out_buf, None))) \<and>
   (op = IOCTL_USB_GET_DESCRIPTORS_SIZE \<and> current_config dev = Inr descriptor \<and> length out_buf < 4 \<longrightarrow>
      usb_device_ioctl e dev op in_buf out_buf = Some (Inr (ZX_ERR_BUFFER_TOO_SMALL, dev, out_buf, None))) \<and>
   (op = IOCTL_USB_GET_DESCRIPTORS \<and> current_config dev = Inr descriptor \<and>
      wTotalLength descriptor = Inr desc_length \<and> length out_buf < desc_length \<longrightarrow>
      usb_device_ioctl e dev op in_buf out_buf = Some (Inr (ZX_ERR_BUFFER_TOO_SMALL, dev, out_buf, None))) \<and>
   (op = IOCTL_USB_GET_CONFIG_DESC \<and> length in_buf = 4 \<and>
      get_config_desc dev (int_at in_buf 0) = Inr (Some descriptor) \<and>
      wTotalLength descriptor = Inr desc_length \<and> length out_buf < desc_length \<longrightarrow>
      usb_device_ioctl e dev op in_buf out_buf = Some (Inr (ZX_ERR_BUFFER_TOO_SMALL, dev, out_buf, None))) \<and>
   (op = IOCTL_USB_GET_CONFIGURATION \<and> length out_buf \<noteq> 4 \<longrightarrow>
      usb_device_ioctl e dev op in_buf out_buf = Some (Inr (ZX_ERR_INVALID_ARGS, dev, out_buf, None))) \<and>
   (op = IOCTL_USB_GET_STRING_DESC \<and> length in_buf = string_req_size e \<and> length out_buf < 4 \<longrightarrow>
      usb_device_ioctl e dev op in_buf out_buf = Some (Inr (ZX_ERR_INVALID_ARGS, dev, out_buf, None)))"
  by (auto simp: usb_device_ioctl_def ioctl_fail_def sizeof_int_def sizeof_uint64_def
        sizeof_device_descriptor_def sizeof_string_desc_resp_def)

theorem ioctl_short_output_witness:
  "usb_device_ioctl quiet_env two_children_device IOCTL_USB_GET_DEVICE_SPEED [] [0, 0, 0]
     = Some (Inr (ZX_ERR_BUFFER_TOO_SMALL, two_children_device, [0, 0, 0], None)) \<and>
   usb_device_ioctl quiet_env two_children_device IOCTL_USB_GET_DEVICE_DESC [] (replicate 17 0)
     = Some (Inr (ZX_ERR_BUFFER_TOO_SMALL, two_children_device, replicate 17 0, None)) \<and>
   usb_device_ioctl quiet_env two_children_device IOCTL_USB_GET_DEVICE_ID [] [0, 0, 0, 0]
     = Some (Inr (ZX_ERR_BUFFER_TOO_SMALL, two_children_device, [0, 0, 0, 0], None)) \<and>
   usb_device_ioctl quiet_env two_children_device IOCTL_USB_GET_DESCRIPTORS_SIZE [] []
     = Some (Inr (ZX_ERR_BUFFER_TOO_SMALL, two_children_device, [], None)) \<and>
   wTotalLength config_two_interfaces = Inr 27 \<and>
   usb_device_ioctl quiet_env two_children_device IOCTL_USB_GET_DESCRIPTORS [] (replicate 26 0)
     = Some (Inr (ZX_ERR_BUFFER_TOO_SMALL, two_children_device, replicate 26 0, None)) \<and>
   get_config_desc two_children_device (int_at [1, 0, 0, 0] 0) = Inr (Some config_two_interfaces) \<and>
   usb_device_ioctl quiet_env two_children_device IOCTL_USB_GET_CONFIG_DESC [1, 0, 0, 0] (replicate 26 0)
     = Some (Inr (ZX_ERR_BUFFER_TOO_SMALL, two_children_device, replicate 26 0, None)) \<and>
   usb_device_ioctl quiet_env two_children_device IOCTL_USB_GET_CONFIGURATION [] [0, 0, 0, 0, 0]
     = Some (Inr (ZX_ERR_INVALID_ARGS, two_children_device, [0, 0, 0, 0, 0], None)) \<and>
   usb_device_ioctl quiet_env two_children_device IOCTL_USB_GET_STRING_DESC [0, 0, 0, 0] [0, 0, 0]
     = Some (Inr (ZX_ERR_INVALID_ARGS, two_children_device, [0, 0, 0], None))"
proof -
  have cur: "current_config two_children_device = Inr config_two_interfaces"
    by (simp add: current_config_def two_children_device_def fresh_device_def)
  have tot: "wTotalLength config_two_interfaces = Inr 27"
    by (simp add: wTotalLength_def rd8_def config_two_interfaces_def)
  have arg: "int_at [1, 0, 0, 0] 0 = 1"
    by (simp add: int_at_def)
  have get: "get_config_desc two_children_device (int_at [1, 0, 0, 0] 0) = Inr (Some config_two_interfaces)"
    by (simp add: arg get_config_desc_def two_children_device_def fresh_device_def
          bConfigurationValue_def rd8_def config_two_interfaces_def)
  have req: "string_req_size quiet_env = 4"
    by (simp add: quiet_env_def)
  show ?thesis
    using ioctl_short_output[of IOCTL_USB_GET_DEVICE_SPEED "[0, 0, 0]" quiet_env two_children_device "[]"]
      ioctl_short_output[of IOCTL_USB_GET_DEVICE_DESC "replicate 17 0" quiet_env two_children_device "[]"]
      ioctl_short_output[of IOCTL_USB_GET_DEVICE_ID "[0, 0, 0, 0]" quiet_env two_children_device "[]"]
      ioctl_short_output[of IOCTL_USB_GET_DESCRIPTORS_SIZE "[]" quiet_env two_children_device "[]" config_two_interfaces]
      ioctl_short_output[of IOCTL_USB_GET_DESCRIPTORS "replicate 26 0" quiet_env two_children_device "[]" config_two_interfaces 27]
      ioctl_short_output[of IOCTL_USB_GET_CONFIG_DESC "replicate 26 0" quiet_env two_children_device "[1, 0, 0, 0]" config_two_interfaces 27]
      ioctl_short_output[of IOCTL_USB_GET_CONFIGURATION "[0, 0, 0, 0, 0]" quiet_env two_children_device "[]"]
      ioctl_short_output[of IOCTL_USB_GET_STRING_DESC "[0, 0, 0]" quiet_env two_children_device "[0, 0, 0, 0]"]
      cur tot get req
    by simp
qed

text \<open>
  C9 as stated fails at \<open>GET_CONFIGURATION\<close> with a two-byte output buffer: the status is
  \<open>ZX_ERR_INVALID_ARGS\<close>, not \<open>ZX_ERR_BUFFER_TOO_SMALL\<close>.
\<close>

theorem ioctl_get_configuration_short_output:
  "usb_device_ioctl quiet_env two_children_device IOCTL_USB_GET_CONFIGURATION [] [0, 0]
     = Some (Inr (ZX_ERR_INVALID_ARGS, two_children_device, [0, 0], None))"
  by (simp add: usb_device_ioctl_def ioctl_fail_def sizeof_int_def)

text \<open>
  \<open>GET_CONFIG_DESC_SIZE\<close> is the one operation with a reply and no test of \<open>out_len\<close>: with
  a two-byte output buffer the four bytes of the reply are stored past its end.
\<close>

lemma ioctl_get_config_desc_size_short_output:
  "usb_device_ioctl quiet_env two_children_device IOCTL_USB_GET_CONFIG_DESC_SIZE [1, 0, 0, 0] [0, 0]
     = Some (Inl Out_of_bounds)"
proof -
  have arg: "int_at [1, 0, 0, 0] 0 = 1"
    by (simp add: int_at_def)
  have get: "get_config_desc two_children_device 1 = Inr (Some config_two_interfaces)"
    by (simp add: get_config_desc_def two_children_device_def fresh_device_def
          bConfigurationValue_def rd8_def config_two_interfaces_def)
  have tot: "wTotalLength config_two_interfaces = Inr 27"
    by (simp add: wTotalLength_def rd8_def config_two_interfaces_def)
  show ?thesis
    by (simp add: usb_device_ioctl_def sizeof_int_def arg get tot ioctl_reply_def store_out_def le32_def)
qed

subsection \<open>Claimed interfaces stay claimed\<close>

text \<open>The equations that evaluate the walk on a concrete blob.\<close>

lemmas walk_defs = usb_device_add_interfaces_def NEXT_DESCRIPTOR_def bLength_def bDescriptorType_def
  bInterfaceNumber_def bAlternateSetting_def bInterfaceCount_def wTotalLength_def rd8_def
  USB_DT_INTERFACE_def USB_DT_INTERFACE_ASSOCIATION_def
  publish_interface_def publish_association_def memcpy_span_def status_at_def set_status_def
  usb_device_add_interface_def usb_device_add_interface_association_def
  usb_device_remove_interface_by_id_locked_def usb_device_claim_interface_def
  usb_interface_contains_interface_def Let_def
  add_interfaces_loop.simps intf_end.simps assoc_end.simps

lemma replicate_two: "replicate 2 x = [x, x]"
  by (simp add: numeral_2_eq_2)

text \<open>
  A reflexive and transitive relation between device states that both publishing steps
  respect holds between the start and the end of every walk that returns. The relation may
  depend on the collaborators of the walk.
\<close>

lemma loop_preserves_env:
  assumes refl: "\<And>e d. R e d d" and trans: "\<And>e a b c. R e a b \<Longrightarrow> R e b c \<Longrightarrow> R e a c"
    and pa: "\<And>e config h n result parent fl.
               publish_association e config h n result parent = Inr fl \<Longrightarrow> R e parent (flow_device fl)"
    and pi: "\<And>e config h n result parent fl.
               publish_interface e config h n result parent = Inr fl \<Longrightarrow> R e parent (flow_device fl)"
    and run: "add_interfaces_loop e config end header result parent = Some r"
  shows "\<forall>st dev'. r = Inr (st, dev') \<longrightarrow> R e parent dev'"
  using run
proof (induction rule: add_interfaces_loop.raw_induct[rotated 1, consumes 1, case_names step])
  case (step loop e config endp header result parent r)
  show ?case
  proof (intro allI impI)
    fix st dev'
    assume r: "r = Inr (st, dev')"
    note body = step(2)[unfolded r]
    show "R e parent dev'"
    proof (cases "header < endp")
      case False
      with body show ?thesis by (simp add: refl)
    next
      case True
      from True body obtain ty where ty: "bDescriptorType config header = Inr ty"
        by (auto split: sum.splits)
      consider (assoc) "ty = USB_DT_INTERFACE_ASSOCIATION"
        | (intf) "ty \<noteq> USB_DT_INTERFACE_ASSOCIATION" "ty = USB_DT_INTERFACE"
        | (other) "ty \<noteq> USB_DT_INTERFACE_ASSOCIATION" "ty \<noteq> USB_DT_INTERFACE"
        by blast
      then show ?thesis
      proof cases
        case assoc
        from True ty assoc body obtain cnt next0 n fl where
            "publish_association e config header n result parent = Inr fl"
            and c: "(case fl of Return status parent' \<Rightarrow> Some (Inr (status, parent'))
                     | Continue result' parent' \<Rightarrow> loop e config endp n result' parent')
                    = Some (Inr (st, dev'))"
          by (auto split: sum.splits option.splits)
        from pa[OF this(1)] have k: "R e parent (flow_device fl)" .
        show ?thesis
        proof (cases fl)
          case (Return s d)
          with c k show ?thesis by simp
        next
          case (Continue s d)
          with c have "loop e config endp n s d = Some (Inr (st, dev'))" by simp
          from step(1)[OF this] have "R e d dev'" by simp
          with k Continue show ?thesis by (auto intro: trans)
        qed
      next
        case intf
        from True ty intf body obtain next0 n fl where
            "publish_interface e config header n result parent = Inr fl"
            and c: "(case fl of Return status parent' \<Rightarrow> Some (Inr (status, parent'))
                     | Continue result' parent' \<Rightarrow> loop e config endp n result' parent')
                    = Some (Inr (st, dev'))"
          by (auto split: sum.splits option.splits)
        from pi[OF this(1)] have k: "R e parent (flow_device fl)" .
        show ?thesis
        proof (cases fl)
          case (Return s d)
          with c k show ?thesis by simp
        next
          case (Continue s d)
          with c have "loop e config endp n s d = Some (Inr (st, dev'))" by simp
          from step(1)[OF this] have "R e d dev'" by simp
          with k Continue show ?thesis by (auto intro: trans)
        qed
      next
        case other
        from True ty other body obtain h' where
          "loop e config endp h' result parent = Some (Inr (st, dev'))"
          by (auto split: sum.splits)
        from step(1)[OF this] show ?thesis by simp
      qed
    qed
  qed
qed

lemma loop_preserves:
  assumes "\<And>d. R d d" and "\<And>a b c. R a b \<Longrightarrow> R b c \<Longrightarrow> R a c"
    and "\<And>e config h n result parent fl.
               publish_association e config h n result parent = Inr fl \<Longrightarrow> R parent (flow_device fl)"
    and "\<And>e config h n result parent fl.
               publish_interface e config h n result parent = Inr fl \<Longrightarrow> R parent (flow_device fl)"
    and "add_interfaces_loop e config end header result parent = Some r"
  shows "\<forall>st dev'. r = Inr (st, dev') \<longrightarrow> R parent dev'"
  using loop_preserves_env[where R = "\<lambda>e. R", OF assms] .

lemma registry_kept_refl: "registry_kept dev dev"
  by (simp add: registry_kept_def publishes_unclaimed_def)

lemma publishes_unclaimed_later:
  assumes "registry_kept a b" and "publishes_unclaimed b new"
  shows "publishes_unclaimed a new"
  using assms unfolding registry_kept_def publishes_unclaimed_def
  by (metis)

lemma publishes_unclaimed_append:
  "publishes_unclaimed dev (xs @ ys) \<longleftrightarrow> publishes_unclaimed dev xs \<and> publishes_unclaimed dev ys"
  by (auto simp: publishes_unclaimed_def)

lemma registry_kept_trans:
  assumes ab: "registry_kept a b" and bc: "registry_kept b c"
  shows "registry_kept a c"
proof -
  from ab obtain n1 where n1: "calls b = calls a @ n1" "publishes_unclaimed a n1"
      "\<forall>cfg st. Set_configuration cfg st \<notin> set n1"
    unfolding registry_kept_def by blast
  from bc obtain n2 where n2: "calls c = calls b @ n2" "publishes_unclaimed b n2"
      "\<forall>cfg st. Set_configuration cfg st \<notin> set n2"
    unfolding registry_kept_def by blast
  from publishes_unclaimed_later[OF ab n2(2)] n1 n2
  have "calls c = calls a @ (n1 @ n2) \<and> publishes_unclaimed a (n1 @ n2) \<and>
        (\<forall>cfg st. Set_configuration cfg st \<notin> set (n1 @ n2))"
    by (simp add: publishes_unclaimed_append)
  then have ex: "\<exists>new. calls c = calls a @ new \<and> publishes_unclaimed a new \<and>
        (\<forall>cfg st. Set_configuration cfg st \<notin> set new)" by blast
  from ab bc have rest: "length (interface_statuses c) = length (interface_statuses a) \<and>
     (\<forall>j < length (interface_statuses a).
        interface_statuses a ! j = CLAIMED \<longrightarrow> interface_statuses c ! j = CLAIMED) \<and>
     current_config_index c = current_config_index a \<and>
     config_descs c = config_descs a \<and> bNumConfigurations c = bNumConfigurations a"
    unfolding registry_kept_def by auto
  with ex show ?thesis unfolding registry_kept_def by blast
qed

lemma remove_by_id_kept:
  "usb_device_remove_interface_by_id_locked dev i = (b, dev') \<Longrightarrow> registry_kept dev dev'"
  by (auto simp: usb_device_remove_interface_by_id_locked_def registry_kept_def
        publishes_unclaimed_def split: option.splits)

lemma set_status_kept:
  assumes "set_status dev i s = Inr dev'" and "s = CLAIMED \<or> status_at dev i \<noteq> Inr CLAIMED"
  shows "registry_kept dev dev'"
  using assms
  by (auto simp: set_status_def status_at_def registry_kept_def publishes_unclaimed_def
        nth_list_update split: if_splits)

lemma claim_kept:
  assumes "usb_device_claim_interface dev i = Inr (st, dev')"
  shows "registry_kept dev dev'"
proof (cases "status_at dev i")
  case (Inl f)
  with assms show ?thesis by (simp add: usb_device_claim_interface_def)
next
  case (Inr s)
  show ?thesis
  proof (cases s)
    case AVAILABLE
    with Inr assms show ?thesis
      by (auto simp: usb_device_claim_interface_def split: sum.splits intro: set_status_kept)
  next
    case CLAIMED
    with Inr assms show ?thesis
      by (auto simp: usb_device_claim_interface_def registry_kept_refl)
  next
    case CHILD_DEVICE
    obtain b d1 where r: "usb_device_remove_interface_by_id_locked dev i = (b, d1)"
      by (cases "usb_device_remove_interface_by_id_locked dev i")
    from remove_by_id_kept[OF r] have k1: "registry_kept dev d1" .
    show ?thesis
    proof (cases b)
      case False
      with CHILD_DEVICE Inr assms r k1 show ?thesis
        by (auto simp: usb_device_claim_interface_def)
    next
      case True
      with CHILD_DEVICE Inr assms r have "set_status d1 i CLAIMED = Inr dev'"
        by (auto simp: usb_device_claim_interface_def split: sum.splits)
      from set_status_kept[OF this] have "registry_kept d1 dev'" by simp
      with k1 show ?thesis by (rule registry_kept_trans)
    qed
  qed
qed

lemma claim_all_kept:
  "claim_all is dev = Inr dev' \<Longrightarrow> registry_kept dev dev'"
proof (induction "is" arbitrary: dev)
  case Nil
  then show ?case by (simp add: registry_kept_refl)
next
  case (Cons i "is")
  from Cons.prems obtain st d1 where c: "usb_device_claim_interface dev i = Inr (st, d1)"
      and r: "claim_all is d1 = Inr dev'"
    by (auto split: sum.splits)
  from claim_kept[OF c] Cons.IH[OF r] show ?case by (rule registry_kept_trans)
qed

lemma logged_kept:
  assumes "publishes_unclaimed dev [c]" and "\<forall>cfg st. c \<noteq> Set_configuration cfg st"
  shows "registry_kept dev (dev\<lparr>calls := calls dev @ [c]\<rparr>)"
  using assms by (auto simp: registry_kept_def)

lemma children_kept: "registry_kept dev (dev\<lparr>children := cs\<rparr>)"
  by (simp add: registry_kept_def publishes_unclaimed_def)

lemma add_interface_kept:
  assumes "usb_device_add_interface e dev span = Inr (st, dev')"
    and "bInterfaceNumber span 0 = Inr n" and "unat n < length (interface_statuses dev)"
    and "interface_statuses dev ! unat n \<noteq> CLAIMED"
  shows "registry_kept dev dev'"
proof -
  let ?c = "Device_add_interface span (device_add_status e span)"
  let ?d1 = "dev\<lparr>calls := calls dev @ [?c]\<rparr>"
  from assms(2-4) have k1: "registry_kept dev ?d1"
    by (intro logged_kept) (auto simp: publishes_unclaimed_def)
  show ?thesis
  proof (cases "device_add_status e span = ZX_OK")
    case False
    with assms(1,2) k1 show ?thesis
      by (auto simp: usb_device_add_interface_def Let_def)
  next
    case True
    let ?d2 = "?d1\<lparr>children := \<lparr>interface_number = n, descriptors = span\<rparr> # children ?d1\<rparr>"
    from True assms(1,2) have "claim_all (bind_claims e span) ?d2 = Inr dev'"
      by (auto simp: usb_device_add_interface_def Let_def split: sum.splits)
    from claim_all_kept[OF this] have "registry_kept ?d2 dev'" .
    with registry_kept_trans[OF k1 children_kept] show ?thesis
      by (rule registry_kept_trans)
  qed
qed

lemma add_association_kept:
  assumes "usb_device_add_interface_association e dev span = Inr (st, dev')"
  shows "registry_kept dev dev'"
proof -
  from assms obtain n where n: "bInterfaceNumber span 0 = Inr n"
    by (auto simp: usb_device_add_interface_association_def split: sum.splits)
  let ?c = "Device_add_association span (device_add_status e span)"
  let ?d1 = "dev\<lparr>calls := calls dev @ [?c]\<rparr>"
  have k1: "registry_kept dev ?d1"
    by (intro logged_kept) (auto simp: publishes_unclaimed_def)
  show ?thesis
  proof (cases "device_add_status e span = ZX_OK")
    case False
    with assms n k1 show ?thesis
      by (auto simp: usb_device_add_interface_association_def Let_def)
  next
    case True
    let ?d2 = "?d1\<lparr>children := \<lparr>interface_number = n, descriptors = span\<rparr> # children ?d1\<rparr>"
    from True assms n have "claim_all (bind_claims e span) ?d2 = Inr dev'"
      by (auto simp: usb_device_add_interface_association_def Let_def split: sum.splits)
    from claim_all_kept[OF this] have "registry_kept ?d2 dev'" .
    with registry_kept_trans[OF k1 children_kept] show ?thesis
      by (rule registry_kept_trans)
  qed
qed

lemma publish_association_kept:
  assumes "publish_association e config h next result parent = Inr fl"
  shows "registry_kept parent (flow_device fl)"
  using assms
  by (auto simp: publish_association_def Let_def registry_kept_refl
        split: if_splits sum.splits intro: add_association_kept)

lemma span_interface_number:
  assumes "memcpy_span config h len = Inr span" and "bInterfaceNumber span 0 = Inr n'"
  shows "bInterfaceNumber config h = Inr n'"
  using assms
  by (auto simp: memcpy_span_def bInterfaceNumber_def rd8_def split: if_splits)

lemma publish_interface_kept:
  assumes "publish_interface e config h next result parent = Inr fl"
  shows "registry_kept parent (flow_device fl)"
proof -
  from assms obtain n s where n: "bInterfaceNumber config h = Inr n" and s: "status_at parent n = Inr s"
    by (auto simp: publish_interface_def split: sum.splits)
  show ?thesis
  proof (cases "s = AVAILABLE")
    case False
    with assms n s show ?thesis
      by (auto simp: publish_interface_def Let_def registry_kept_refl)
  next
    case True
    show ?thesis
    proof (cases "malloc_ok e (next - h)")
      case False
      with True assms n s show ?thesis
        by (auto simp: publish_interface_def Let_def registry_kept_refl)
    next
      case m: True
      from m True assms n s obtain span st p1 again where
          span: "memcpy_span config h (next - h) = Inr span"
          and add: "usb_device_add_interface e parent span = Inr (st, p1)"
          and again: "status_at p1 n = Inr again"
        by (auto simp: publish_interface_def Let_def split: sum.splits)
      from add obtain n' where n': "bInterfaceNumber span 0 = Inr n'"
        by (auto simp: usb_device_add_interface_def split: sum.splits)
      from span_interface_number[OF span n'] n have "n' = n" by simp
      with n' s True have "bInterfaceNumber span 0 = Inr n"
          "unat n < length (interface_statuses parent)"
          "interface_statuses parent ! unat n \<noteq> CLAIMED"
        by (auto simp: status_at_def split: if_splits)
      from add_interface_kept[OF add this] have k1: "registry_kept parent p1" .
      show ?thesis
      proof (cases "again = CLAIMED")
        case c: True
        obtain b p2 where r: "usb_device_remove_interface_by_id_locked p1 n = (b, p2)"
          by (cases "usb_device_remove_interface_by_id_locked p1 n")
        from c m True assms n s span add again r have "flow_device fl = p2"
          by (auto simp: publish_interface_def Let_def split: if_splits)
        with registry_kept_trans[OF k1 remove_by_id_kept[OF r]] show ?thesis by simp
      next
        case c: False
        from c m True assms n s span add again obtain p2 where
            p2: "set_status p1 n CHILD_DEVICE = Inr p2" and fl: "flow_device fl = p2"
          by (auto simp: publish_interface_def Let_def split: sum.splits)
        from c again have "status_at p1 n \<noteq> Inr CLAIMED" by simp
        with set_status_kept[OF p2] have "registry_kept p1 p2" by simp
        with k1 fl show ?thesis by (auto intro: registry_kept_trans)
      qed
    qed
  qed
qed

lemma loop_kept:
  assumes "add_interfaces_loop e config end header result parent = Some r"
  shows "\<forall>st dev'. r = Inr (st, dev') \<longrightarrow> registry_kept parent dev'"
  using loop_preserves[where R = registry_kept, OF registry_kept_refl registry_kept_trans
      publish_association_kept publish_interface_kept assms] .

lemma add_interfaces_kept:
  assumes "usb_device_add_interfaces e parent config = Some (Inr (st, dev'))"
  shows "registry_kept parent dev'"
  using assms loop_kept
  by (auto simp: usb_device_add_interfaces_def split: sum.splits)


text \<open>
  What the children of a device are after a step: those that were there, and those added by
  a publication the framework accepted.
\<close>

lemma children_added_refl: "children_added dev dev"
  by (simp add: children_added_def)

lemma added_append: "added c xs \<or> added c ys \<Longrightarrow> added c (xs @ ys)"
  by (auto simp: added_def)

lemma children_added_trans:
  assumes ab: "children_added a b" and bc: "children_added b c"
  shows "children_added a c"
proof -
  from ab obtain n1 where n1: "calls b = calls a @ n1"
      "\<forall>x \<in> set (children b). x \<in> set (children a) \<or> added x n1"
    unfolding children_added_def by blast
  from bc obtain n2 where n2: "calls c = calls b @ n2"
      "\<forall>x \<in> set (children c). x \<in> set (children b) \<or> added x n2"
    unfolding children_added_def by blast
  have "\<forall>x \<in> set (children c). x \<in> set (children a) \<or> added x (n1 @ n2)"
    using n1(2) n2(2) added_append by blast
  moreover from n1(1) n2(1) have "calls c = calls a @ (n1 @ n2)" by simp
  ultimately show ?thesis unfolding children_added_def by blast
qed

lemma remove_by_id_children:
  "usb_device_remove_interface_by_id_locked dev i = (b, dev') \<Longrightarrow> children_added dev dev'"
  by (auto simp: usb_device_remove_interface_by_id_locked_def children_added_def
        split: option.splits dest!: remove_first_Some dest: set_remove1_subset[THEN subsetD])

lemma set_status_children:
  "set_status dev i s = Inr dev' \<Longrightarrow> children_added dev dev'"
  by (auto simp: set_status_def children_added_def split: if_splits)

lemma claim_children:
  assumes "usb_device_claim_interface dev i = Inr (st, dev')"
  shows "children_added dev dev'"
proof -
  obtain b d1 where r: "usb_device_remove_interface_by_id_locked dev i = (b, d1)"
    by (cases "usb_device_remove_interface_by_id_locked dev i")
  note k1 = remove_by_id_children[OF r]
  from assms r k1 show ?thesis
    by (auto simp: usb_device_claim_interface_def children_added_refl
          split: sum.splits if_splits
          intro: set_status_children children_added_trans[OF k1 set_status_children])
qed

lemma claim_all_children:
  "claim_all is dev = Inr dev' \<Longrightarrow> children_added dev dev'"
proof (induction "is" arbitrary: dev)
  case Nil
  then show ?case by (simp add: children_added_refl)
next
  case (Cons i "is")
  from Cons.prems obtain st d1 where c: "usb_device_claim_interface dev i = Inr (st, d1)"
      and r: "claim_all is d1 = Inr dev'"
    by (auto split: sum.splits)
  from claim_children[OF c] Cons.IH[OF r] show ?case by (rule children_added_trans)
qed

lemma add_interface_children:
  assumes "usb_device_add_interface e dev span = Inr (st, dev')"
  shows "children_added dev dev'"
proof (cases "device_add_status e span = ZX_OK")
  case False
  with assms show ?thesis
    by (auto simp: usb_device_add_interface_def Let_def children_added_def split: sum.splits)
next
  case True
  from assms obtain n where n: "bInterfaceNumber span 0 = Inr n"
    by (auto simp: usb_device_add_interface_def split: sum.splits)
  let ?d2 = "dev\<lparr>calls := calls dev @ [Device_add_interface span ZX_OK],
                   children := \<lparr>interface_number = n, descriptors = span\<rparr> # children dev\<rparr>"
  have k1: "children_added dev ?d2"
    by (auto simp: children_added_def added_def)
  from True assms n have "claim_all (bind_claims e span) ?d2 = Inr dev'"
    by (auto simp: usb_device_add_interface_def Let_def split: sum.splits)
  from children_added_trans[OF k1 claim_all_children[OF this]] show ?thesis .
qed

lemma add_association_children:
  assumes "usb_device_add_interface_association e dev span = Inr (st, dev')"
  shows "children_added dev dev'"
proof (cases "device_add_status e span = ZX_OK")
  case False
  with assms show ?thesis
    by (auto simp: usb_device_add_interface_association_def Let_def children_added_def
          split: sum.splits)
next
  case True
  from assms obtain n where n: "bInterfaceNumber span 0 = Inr n"
    by (auto simp: usb_device_add_interface_association_def split: sum.splits)
  let ?d2 = "dev\<lparr>calls := calls dev @ [Device_add_association span ZX_OK],
                   children := \<lparr>interface_number = n, descriptors = span\<rparr> # children dev\<rparr>"
  have k1: "children_added dev ?d2"
    by (auto simp: children_added_def added_def)
  from True assms n have "claim_all (bind_claims e span) ?d2 = Inr dev'"
    by (auto simp: usb_device_add_interface_association_def Let_def split: sum.splits)
  from children_added_trans[OF k1 claim_all_children[OF this]] show ?thesis .
qed

lemma publish_association_children:
  assumes "publish_association e config h n result parent = Inr fl"
  shows "children_added parent (flow_device fl)"
  using assms
  by (auto simp: publish_association_def Let_def children_added_refl
        split: if_splits sum.splits intro: add_association_children)

lemma publish_interface_children:
  assumes "publish_interface e config h n result parent = Inr fl"
  shows "children_added parent (flow_device fl)"
proof -
  from assms obtain i s where i: "bInterfaceNumber config h = Inr i" and s: "status_at parent i = Inr s"
    by (auto simp: publish_interface_def split: sum.splits)
  show ?thesis
  proof (cases "s = AVAILABLE \<and> malloc_ok e (n - h)")
    case False
    with assms i s show ?thesis
      by (auto simp: publish_interface_def Let_def children_added_refl split: if_splits)
  next
    case True
    with assms i s obtain span st p1 again where
        add: "usb_device_add_interface e parent span = Inr (st, p1)"
        and again: "status_at p1 i = Inr again"
        and span: "memcpy_span config h (n - h) = Inr span"
      by (auto simp: publish_interface_def Let_def split: sum.splits)
    note k1 = add_interface_children[OF add]
    obtain b p2 where r: "usb_device_remove_interface_by_id_locked p1 i = (b, p2)"
      by (cases "usb_device_remove_interface_by_id_locked p1 i")
    show ?thesis
    proof (cases "again = CLAIMED")
      case c: True
      from c True assms i s span add again r have "flow_device fl = p2"
        by (auto simp: publish_interface_def Let_def split: if_splits)
      with children_added_trans[OF k1 remove_by_id_children[OF r]] show ?thesis by simp
    next
      case c: False
      from c True assms i s span add again obtain p3 where
          p3: "set_status p1 i CHILD_DEVICE = Inr p3" and fl: "flow_device fl = p3"
        by (auto simp: publish_interface_def Let_def split: sum.splits)
      from children_added_trans[OF k1 set_status_children[OF p3]] fl show ?thesis by simp
    qed
  qed
qed

lemma add_interfaces_children:
  assumes "usb_device_add_interfaces e parent config = Some (Inr (st, dev'))"
  shows "children_added parent dev'"
proof -
  from assms obtain h total where
    "add_interfaces_loop e config total h ZX_OK parent = Some (Inr (st, dev'))"
    by (auto simp: usb_device_add_interfaces_def split: sum.splits)
  from loop_preserves[where R = children_added, OF children_added_refl children_added_trans
      publish_association_children publish_interface_children this]
  show ?thesis by simp
qed










subsection \<open>Configuration switch\<close>

text \<open>The calls a claim and the publication of a group add.\<close>

lemma claim_calls:
  assumes "usb_device_claim_interface dev i = Inr (st, dev')"
  shows "\<exists>removed. calls dev' = calls dev @ map Device_remove removed"
proof -
  have nil: "calls dev = calls dev @ map Device_remove []" by simp
  have one: "calls dev @ [Device_remove c] = calls dev @ map Device_remove [c]" for c by simp
  from assms show ?thesis
    by (auto simp: usb_device_claim_interface_def usb_device_remove_interface_by_id_locked_def
          set_status_def status_at_def
          split: sum.splits if_splits option.splits prod.splits
          intro: exI[of _ "[]"] exI[of _ "[c]" for c])
qed

lemma claim_all_calls:
  "claim_all is dev = Inr dev' \<Longrightarrow> \<exists>removed. calls dev' = calls dev @ map Device_remove removed"
proof (induction "is" arbitrary: dev)
  case Nil
  then show ?case by (auto intro: exI[of _ "[]"])
next
  case (Cons i "is")
  from Cons.prems obtain st d1 where c: "usb_device_claim_interface dev i = Inr (st, d1)"
      and r: "claim_all is d1 = Inr dev'"
    by (auto split: sum.splits)
  from claim_calls[OF c] obtain r1 where r1: "calls d1 = calls dev @ map Device_remove r1" by blast
  from Cons.IH[OF r] obtain r2 where r2: "calls dev' = calls d1 @ map Device_remove r2" by blast
  from r1 r2 have "calls dev' = calls dev @ map Device_remove (r1 @ r2)" by simp
  then show ?case by blast
qed

lemma add_association_calls:
  assumes "usb_device_add_interface_association e dev span = Inr (st, dev')"
  shows "\<exists>removed. calls dev' =
           calls dev @ Device_add_association span (device_add_status e span) # map Device_remove removed"
proof (cases "device_add_status e span = ZX_OK")
  case False
  with assms have "calls dev' = calls dev @ Device_add_association span (device_add_status e span) #
                      map Device_remove []"
    by (auto simp: usb_device_add_interface_association_def Let_def split: sum.splits)
  then show ?thesis by blast
next
  case True
  from assms obtain n where n: "bInterfaceNumber span 0 = Inr n"
    by (auto simp: usb_device_add_interface_association_def split: sum.splits)
  let ?d2 = "dev\<lparr>calls := calls dev @ [Device_add_association span ZX_OK],
                   children := \<lparr>interface_number = n, descriptors = span\<rparr> # children dev\<rparr>"
  from True assms n have "claim_all (bind_claims e span) ?d2 = Inr dev'"
    by (auto simp: usb_device_add_interface_association_def Let_def split: sum.splits)
  from claim_all_calls[OF this] True show ?thesis by auto
qed

text \<open>The statuses after a publishing step, and after a walk.\<close>

lemma marked_refl: "marked e dev dev"
  by (simp add: marked_def)

lemma published_single_append:
  "published_single j xs \<or> published_single j ys \<Longrightarrow> published_single j (xs @ ys)"
  by (auto simp: published_single_def)

lemma claimed_during_append:
  "claimed_during e j xs \<or> claimed_during e j ys \<Longrightarrow> claimed_during e j (xs @ ys)"
  by (auto simp: claimed_during_def)

lemma marked_trans:
  assumes ab: "marked e a b" and bc: "marked e b c"
  shows "marked e a c"
proof -
  from ab obtain n1 where n1: "calls b = calls a @ n1"
      "\<forall>j < length (interface_statuses a).
           interface_statuses b ! j = interface_statuses a ! j \<or>
           (interface_statuses b ! j = CHILD_DEVICE \<and> published_single j n1) \<or>
           (interface_statuses b ! j = CLAIMED \<and> claimed_during e j n1)"
      and l1: "length (interface_statuses b) = length (interface_statuses a)"
    unfolding marked_def by blast
  from bc obtain n2 where n2: "calls c = calls b @ n2"
      "\<forall>j < length (interface_statuses b).
           interface_statuses c ! j = interface_statuses b ! j \<or>
           (interface_statuses c ! j = CHILD_DEVICE \<and> published_single j n2) \<or>
           (interface_statuses c ! j = CLAIMED \<and> claimed_during e j n2)"
      and l2: "length (interface_statuses c) = length (interface_statuses b)"
    unfolding marked_def by blast
  have "interface_statuses c ! j = interface_statuses a ! j \<or>
           (interface_statuses c ! j = CHILD_DEVICE \<and> published_single j (n1 @ n2)) \<or>
           (interface_statuses c ! j = CLAIMED \<and> claimed_during e j (n1 @ n2))"
    if "j < length (interface_statuses a)" for j
    using n1(2)[rule_format, OF that] n2(2)[rule_format, of j] that l1
      published_single_append[of j n1 n2] claimed_during_append[of e j n1 n2]
    by auto
  moreover from n1(1) n2(1) have "calls c = calls a @ (n1 @ n2)" by simp
  ultimately show ?thesis using l1 l2 unfolding marked_def by (metis)
qed

lemma claim_statuses:
  assumes "usb_device_claim_interface dev i = Inr (st, dev')"
  shows "length (interface_statuses dev') = length (interface_statuses dev) \<and>
         (\<forall>j < length (interface_statuses dev).
            interface_statuses dev' ! j = interface_statuses dev ! j \<or>
            (interface_statuses dev' ! j = CLAIMED \<and> unat i = j))"
  using assms
  by (auto simp: usb_device_claim_interface_def usb_device_remove_interface_by_id_locked_def
        set_status_def status_at_def nth_list_update
        split: sum.splits if_splits option.splits prod.splits)

lemma claim_all_statuses:
  "claim_all is dev = Inr dev' \<Longrightarrow>
     length (interface_statuses dev') = length (interface_statuses dev) \<and>
     (\<forall>j < length (interface_statuses dev).
        interface_statuses dev' ! j = interface_statuses dev ! j \<or>
        (interface_statuses dev' ! j = CLAIMED \<and> (\<exists>i \<in> set is. unat i = j)))"
proof (induction "is" arbitrary: dev)
  case Nil
  then show ?case by simp
next
  case (Cons i "is")
  from Cons.prems obtain st d1 where c: "usb_device_claim_interface dev i = Inr (st, d1)"
      and r: "claim_all is d1 = Inr dev'"
    by (auto split: sum.splits)
  from claim_statuses[OF c] Cons.IH[OF r] show ?case
    by (auto; metis)
qed


lemma add_interface_calls:
  assumes "usb_device_add_interface e dev span = Inr (st, dev')"
  shows "st = device_add_status e span \<and>
         (\<exists>removed. calls dev' = calls dev @ Device_add_interface span st # map Device_remove removed)"
proof (cases "device_add_status e span = ZX_OK")
  case False
  with assms have "st = device_add_status e span \<and>
      calls dev' = calls dev @ Device_add_interface span st # map Device_remove []"
    by (auto simp: usb_device_add_interface_def Let_def split: sum.splits)
  then show ?thesis by blast
next
  case True
  from assms obtain n where n: "bInterfaceNumber span 0 = Inr n"
    by (auto simp: usb_device_add_interface_def split: sum.splits)
  let ?d2 = "dev\<lparr>calls := calls dev @ [Device_add_interface span ZX_OK],
                   children := \<lparr>interface_number = n, descriptors = span\<rparr> # children dev\<rparr>"
  from True assms n have ca: "claim_all (bind_claims e span) ?d2 = Inr dev'" and st: "st = ZX_OK"
    by (auto simp: usb_device_add_interface_def Let_def split: sum.splits)
  from claim_all_calls[OF ca] True st show ?thesis by auto
qed

lemma add_interface_statuses:
  assumes "usb_device_add_interface e dev span = Inr (st, dev')"
  shows "length (interface_statuses dev') = length (interface_statuses dev) \<and>
         (\<forall>j < length (interface_statuses dev).
            interface_statuses dev' ! j = interface_statuses dev ! j \<or>
            (interface_statuses dev' ! j = CLAIMED \<and> st = ZX_OK \<and>
             (\<exists>i \<in> set (bind_claims e span). unat i = j)))"
proof (cases "device_add_status e span = ZX_OK")
  case False
  with assms show ?thesis
    by (auto simp: usb_device_add_interface_def Let_def split: sum.splits)
next
  case True
  from assms obtain n where n: "bInterfaceNumber span 0 = Inr n"
    by (auto simp: usb_device_add_interface_def split: sum.splits)
  let ?d2 = "dev\<lparr>calls := calls dev @ [Device_add_interface span ZX_OK],
                   children := \<lparr>interface_number = n, descriptors = span\<rparr> # children dev\<rparr>"
  from True assms n have ca: "claim_all (bind_claims e span) ?d2 = Inr dev'" and st: "st = ZX_OK"
    by (auto simp: usb_device_add_interface_def Let_def split: sum.splits)
  from claim_all_statuses[OF ca] st show ?thesis by simp
qed

lemma add_association_statuses:
  assumes "usb_device_add_interface_association e dev span = Inr (st, dev')"
  shows "st = device_add_status e span \<and>
         length (interface_statuses dev') = length (interface_statuses dev) \<and>
         (\<forall>j < length (interface_statuses dev).
            interface_statuses dev' ! j = interface_statuses dev ! j \<or>
            (interface_statuses dev' ! j = CLAIMED \<and> st = ZX_OK \<and>
             (\<exists>i \<in> set (bind_claims e span). unat i = j)))"
proof (cases "device_add_status e span = ZX_OK")
  case False
  with assms show ?thesis
    by (auto simp: usb_device_add_interface_association_def Let_def split: sum.splits)
next
  case True
  from assms obtain n where n: "bInterfaceNumber span 0 = Inr n"
    by (auto simp: usb_device_add_interface_association_def split: sum.splits)
  let ?d2 = "dev\<lparr>calls := calls dev @ [Device_add_association span ZX_OK],
                   children := \<lparr>interface_number = n, descriptors = span\<rparr> # children dev\<rparr>"
  from True assms n have ca: "claim_all (bind_claims e span) ?d2 = Inr dev'" and st: "st = ZX_OK"
    by (auto simp: usb_device_add_interface_association_def Let_def split: sum.splits)
  from claim_all_statuses[OF ca] st True show ?thesis by simp
qed

lemma add_association_marks:
  assumes a: "usb_device_add_interface_association e dev span = Inr (st, dev')"
  shows "marked e dev dev'"
proof -
  from add_association_calls[OF a] add_association_statuses[OF a] obtain removed where
      c: "calls dev' = calls dev @ Device_add_association span st # map Device_remove removed"
    by auto
  let ?new = "Device_add_association span st # map Device_remove removed"
  have cl: "claimed_during e j ?new"
    if "st = ZX_OK" "\<exists>k \<in> set (bind_claims e span). unat k = j" for j
    using that by (auto simp: claimed_during_def)
  have "interface_statuses dev' ! j = interface_statuses dev ! j \<or>
           (interface_statuses dev' ! j = CHILD_DEVICE \<and> published_single j ?new) \<or>
           (interface_statuses dev' ! j = CLAIMED \<and> claimed_during e j ?new)"
    if "j < length (interface_statuses dev)" for j
    using add_association_statuses[OF a] that cl[of j] by blast
  with c add_association_statuses[OF a] show ?thesis
    unfolding marked_def by blast
qed

lemma publish_association_marks:
  assumes "publish_association e config h n result parent = Inr fl"
  shows "marked e parent (flow_device fl)"
  using assms
  by (auto simp: publish_association_def Let_def marked_refl
        split: if_splits sum.splits intro: add_association_marks)

lemma publish_interface_marks:
  assumes "publish_interface e config h n result parent = Inr fl"
  shows "marked e parent (flow_device fl)"
proof -
  from assms obtain i s where i: "bInterfaceNumber config h = Inr i" and s: "status_at parent i = Inr s"
    by (auto simp: publish_interface_def split: sum.splits)
  show ?thesis
  proof (cases "s = AVAILABLE \<and> malloc_ok e (n - h)")
    case False
    with assms i s show ?thesis
      by (auto simp: publish_interface_def Let_def marked_refl split: if_splits)
  next
    case True
    with assms i s obtain span st p1 again where
        add: "usb_device_add_interface e parent span = Inr (st, p1)"
        and again: "status_at p1 i = Inr again"
        and span: "memcpy_span config h (n - h) = Inr span"
      by (auto simp: publish_interface_def Let_def split: sum.splits)
    from add obtain i' where i': "bInterfaceNumber span 0 = Inr i'"
      by (auto simp: usb_device_add_interface_def split: sum.splits)
    from span_interface_number[OF span i'] i i' have ii: "bInterfaceNumber span 0 = Inr i" by simp
    from add_interface_calls[OF add] obtain removed where
        c1: "calls p1 = calls parent @ Device_add_interface span st # map Device_remove removed"
        and st: "st = device_add_status e span"
      by blast
    let ?n1 = "Device_add_interface span st # map Device_remove removed"
    note s1 = add_interface_statuses[OF add]
    have pub: "published_single (unat i) (?n1 @ more)" for more
      using ii by (auto simp: published_single_def)
    have cl: "claimed_during e j (?n1 @ more)"
      if "st = ZX_OK" "\<exists>k \<in> set (bind_claims e span). unat k = j" for j more
      using that by (auto simp: claimed_during_def)
    show ?thesis
    proof (cases "again = CLAIMED")
      case c: True
      obtain b p2 where r: "usb_device_remove_interface_by_id_locked p1 i = (b, p2)"
        by (cases "usb_device_remove_interface_by_id_locked p1 i")
      from c True assms i s span add again r have fl: "flow_device fl = p2"
        by (auto simp: publish_interface_def Let_def split: if_splits)
      from r obtain more where p2: "interface_statuses p2 = interface_statuses p1"
          "calls p2 = calls p1 @ more"
        by (auto simp: usb_device_remove_interface_by_id_locked_def split: option.splits)
      from p2(2) c1 have c2: "calls p2 = calls parent @ (?n1 @ more)" by simp
      have "interface_statuses p2 ! j = interface_statuses parent ! j \<or>
           (interface_statuses p2 ! j = CHILD_DEVICE \<and> published_single j (?n1 @ more)) \<or>
           (interface_statuses p2 ! j = CLAIMED \<and> claimed_during e j (?n1 @ more))"
        if "j < length (interface_statuses parent)" for j
        using s1 that p2(1) cl[of j more] by auto
      with c2 s1 p2(1) fl show ?thesis unfolding marked_def by (metis)
    next
      case c: False
      from c True assms i s span add again obtain p3 where
          p3: "set_status p1 i CHILD_DEVICE = Inr p3" and fl: "flow_device fl = p3"
        by (auto simp: publish_interface_def Let_def split: sum.splits)
      from p3 have e3: "interface_statuses p3 = (interface_statuses p1)[unat i := CHILD_DEVICE]"
          "calls p3 = calls p1" "unat i < length (interface_statuses p1)"
        by (auto simp: set_status_def split: if_splits)
      from e3(2) c1 have c2: "calls p3 = calls parent @ (?n1 @ [])" by simp
      have "interface_statuses p3 ! j = interface_statuses parent ! j \<or>
           (interface_statuses p3 ! j = CHILD_DEVICE \<and> published_single j (?n1 @ [])) \<or>
           (interface_statuses p3 ! j = CLAIMED \<and> claimed_during e j (?n1 @ []))"
        if "j < length (interface_statuses parent)" for j
      proof (cases "j = unat i")
        case True
        with e3 pub[of "[]"] show ?thesis by simp
      next
        case False
        with s1 that e3(1) cl[of j "[]"] show ?thesis by auto
      qed
      with c2 s1 e3(1) fl show ?thesis unfolding marked_def by (metis length_list_update)
    qed
  qed
qed

lemma add_interfaces_marks:
  assumes "usb_device_add_interfaces e parent config = Some (Inr (st, dev'))"
  shows "marked e parent dev'"
proof -
  from assms obtain h total where
    "add_interfaces_loop e config total h ZX_OK parent = Some (Inr (st, dev'))"
    by (auto simp: usb_device_add_interfaces_def split: sum.splits)
  from loop_preserves_env[where R = marked, OF marked_refl marked_trans
      publish_association_marks publish_interface_marks this]
  show ?thesis by simp
qed

lemma find_config_None:
  "find_config descs cfg is = Inr None \<Longrightarrow>
     \<forall>i \<in> set is. \<exists>v. bConfigurationValue (descs ! i) = Inr v \<and> uint v \<noteq> cfg"
  by (induction "is") (auto split: if_splits sum.splits)

lemma find_config_first:
  assumes "\<forall>j < k. \<exists>v. bConfigurationValue (descs ! j) = Inr v \<and> uint v \<noteq> cfg"
    and "bConfigurationValue (descs ! k) = Inr v" and "uint v = cfg"
    and "k < N" and "N \<le> length descs" and "i \<le> k"
  shows "find_config descs cfg [i ..< N] = Inr (Some (k, descs ! k))"
  using assms
proof (induction "k - i" arbitrary: i)
  case 0
  then have "i = k" by simp
  with 0 show ?case by (simp add: upt_conv_Cons)
next
  case (Suc d)
  then have lt: "i < k" by simp
  with Suc.prems have "[i ..< N] = i # [Suc i ..< N]" by (simp add: upt_conv_Cons)
  moreover from lt Suc.prems obtain w where "bConfigurationValue (descs ! i) = Inr w" "uint w \<noteq> cfg"
    by blast
  moreover have "find_config descs cfg [Suc i ..< N] = Inr (Some (k, descs ! k))"
    using Suc.hyps Suc.prems lt by (intro Suc.hyps(1)) auto
  ultimately show ?case using Suc.prems lt by simp
qed

lemma find_config_none:
  assumes "\<forall>j < N. \<exists>v. bConfigurationValue (descs ! j) = Inr v \<and> uint v \<noteq> cfg"
    and "N \<le> length descs"
  shows "find_config descs cfg [i ..< N] = Inr None"
  using assms
proof (induction "N - i" arbitrary: i)
  case 0
  then show ?case by simp
next
  case (Suc d)
  then have lt: "i < N" by simp
  then have "[i ..< N] = i # [Suc i ..< N]" by (simp add: upt_conv_Cons)
  moreover from lt Suc.prems obtain w where "bConfigurationValue (descs ! i) = Inr w" "uint w \<noteq> cfg"
    by blast
  moreover have "find_config descs cfg [Suc i ..< N] = Inr None"
    using Suc.hyps Suc.prems lt by (intro Suc.hyps(1)) auto
  ultimately show ?case using Suc.prems lt by simp
qed

lemma remove_all_map: "remove_all cs log = log @ map Device_remove cs"
  by (induction cs arbitrary: log) auto

lemma switched_eq:
  "m \<le> length (interface_statuses dev) \<Longrightarrow>
   memset_statuses
     (usb_device_remove_interfaces
        (dev\<lparr>calls := calls dev @ [Set_configuration config ZX_OK],
             current_config_index := int k\<rparr>)) m
   = Inr (switched dev config k m)"
  by (simp add: memset_statuses_def usb_device_remove_interfaces_def remove_all_map switched_def)

lemma set_configuration_found:
  assumes f: "find_config (config_descs dev) (uint config) [0 ..< unat (bNumConfigurations dev)]
              = Inr (Some (k, c))"
  shows "control_status e config \<noteq> ZX_OK \<Longrightarrow>
           usb_device_set_configuration e dev config =
             Some (Inr (control_status e config,
                        dev\<lparr>calls := calls dev @ [Set_configuration config (control_status e config)]\<rparr>))"
    and "control_status e config = ZX_OK \<Longrightarrow> bNumInterfaces c = Inr m \<Longrightarrow>
           unat m \<le> length (interface_statuses dev) \<Longrightarrow>
           usb_device_set_configuration e dev config =
             usb_device_add_interfaces e (switched dev config k (unat m)) c"
  using f
  by (simp_all add: usb_device_set_configuration_def Let_def switched_eq)

lemma set_configuration_overflow:
  assumes f: "find_config (config_descs dev) (uint config) [0 ..< unat (bNumConfigurations dev)]
              = Inr (Some (k, c))"
    and "control_status e config = ZX_OK" and "bNumInterfaces c = Inr m"
    and "length (interface_statuses dev) < unat m"
  shows "usb_device_set_configuration e dev config = Some (Inl Out_of_bounds)"
  using assms
  by (simp add: usb_device_set_configuration_def Let_def memset_statuses_def
        usb_device_remove_interfaces_def)

lemma switched_available:
  "j < m \<Longrightarrow> m \<le> length (interface_statuses dev) \<Longrightarrow>
     interface_statuses (switched dev config k m) ! j = AVAILABLE"
  by (simp add: switched_def nth_append)

text \<open>
  C2, as amended. With \<open>bNumConfigurations\<close> readable configurations,
  \<^verbatim>\<open>usb_device_set_configuration\<close> fails with \<open>ZX_ERR_INVALID_ARGS\<close>, changing nothing, if
  no configuration has the value asked for. Otherwise it takes the first that has and issues
  \<open>SET_CONFIGURATION\<close>; if that fails it returns the failure with nothing else changed. If
  it succeeds and the status array holds at least \<open>bNumInterfaces\<close> entries, it stores the
  index, removes every child, sets the first \<open>bNumInterfaces\<close> statuses to \<open>AVAILABLE\<close> and
  then is the walk over the new configuration from that state. When the walk returns, the
  index is the new one, the array has the size it had, the calls are \<open>SET_CONFIGURATION\<close>
  once, one remove for each old child and then the walk's, every child present was added
  by the walk, and each of the first \<open>bNumInterfaces\<close> statuses is \<open>AVAILABLE\<close>, or
  \<open>CHILD_DEVICE\<close> with a single-interface child for it handed to the framework by the walk,
  or \<open>CLAIMED\<close> by a driver while the framework was adding a child. If the array holds
  fewer than \<open>bNumInterfaces\<close> entries, the \<^verbatim>\<open>memset\<close> goes past its end.
\<close>

theorem set_configuration_effect:
  assumes readable: "\<forall>j < unat (bNumConfigurations dev).
            j < length (config_descs dev) \<and> 5 < length (config_descs dev ! j)"
  shows "((\<forall>j < unat (bNumConfigurations dev).
             bConfigurationValue (config_descs dev ! j) \<noteq> Inr config) \<longrightarrow>
          usb_device_set_configuration e dev config = Some (Inr (ZX_ERR_INVALID_ARGS, dev))) \<and>
         (\<forall>k < unat (bNumConfigurations dev).
            bConfigurationValue (config_descs dev ! k) = Inr config \<and>
            (\<forall>j < k. bConfigurationValue (config_descs dev ! j) \<noteq> Inr config) \<longrightarrow>
            (control_status e config \<noteq> ZX_OK \<longrightarrow>
               usb_device_set_configuration e dev config =
                 Some (Inr (control_status e config,
                            dev\<lparr>calls := calls dev @
                                  [Set_configuration config (control_status e config)]\<rparr>))) \<and>
            (\<forall>m. control_status e config = ZX_OK \<and>
                 bNumInterfaces (config_descs dev ! k) = Inr m \<longrightarrow>
                 (length (interface_statuses dev) < unat m \<longrightarrow>
                    usb_device_set_configuration e dev config = Some (Inl Out_of_bounds)) \<and>
                 (unat m \<le> length (interface_statuses dev) \<longrightarrow>
                    usb_device_set_configuration e dev config =
                      usb_device_add_interfaces e (switched dev config k (unat m))
                        (config_descs dev ! k) \<and>
                    (\<forall>status dev'.
                       usb_device_set_configuration e dev config = Some (Inr (status, dev')) \<longrightarrow>
                       current_config_index dev' = int k \<and>
                       length (interface_statuses dev') = length (interface_statuses dev) \<and>
                       (\<exists>new. calls dev' =
                                calls dev @ Set_configuration config ZX_OK #
                                  map Device_remove (children dev) @ new \<and>
                              (\<forall>cfg st. Set_configuration cfg st \<notin> set new) \<and>
                              (\<forall>c \<in> set (children dev'). added c new) \<and>
                              (\<forall>j < unat m.
                                 interface_statuses dev' ! j = AVAILABLE \<or>
                                 (interface_statuses dev' ! j = CHILD_DEVICE \<and>
                                  published_single j new) \<or>
                                 (interface_statuses dev' ! j = CLAIMED \<and>
                                  claimed_during e j new)))))))"
proof -
  let ?N = "unat (bNumConfigurations dev)"
  let ?descs = "config_descs dev"
  let ?run = "usb_device_set_configuration e dev config"
  have rd: "\<And>j. j < ?N \<Longrightarrow> \<exists>v. bConfigurationValue (?descs ! j) = Inr v"
    using readable by (simp add: bConfigurationValue_def rd8_def)
  have len: "?N \<le> length ?descs"
  proof (cases "?N")
    case 0
    then show ?thesis by simp
  next
    case (Suc n)
    with readable have "n < length ?descs" by simp
    with Suc show ?thesis by simp
  qed
  have none: "?run = Some (Inr (ZX_ERR_INVALID_ARGS, dev))"
    if "\<forall>j < ?N. bConfigurationValue (?descs ! j) \<noteq> Inr config"
  proof -
    from that rd have "\<forall>j < ?N. \<exists>v. bConfigurationValue (?descs ! j) = Inr v \<and> uint v \<noteq> uint config"
      by (metis word_uint_eq_iff)
    from find_config_none[OF this len, of 0] show ?thesis
      by (simp add: usb_device_set_configuration_def)
  qed
  have found: "(control_status e config \<noteq> ZX_OK \<longrightarrow>
               ?run =
                 Some (Inr (control_status e config,
                            dev\<lparr>calls := calls dev @
                                  [Set_configuration config (control_status e config)]\<rparr>))) \<and>
            (\<forall>m. control_status e config = ZX_OK \<and>
                 bNumInterfaces (?descs ! k) = Inr m \<longrightarrow>
                 (length (interface_statuses dev) < unat m \<longrightarrow> ?run = Some (Inl Out_of_bounds)) \<and>
                 (unat m \<le> length (interface_statuses dev) \<longrightarrow>
                    ?run = usb_device_add_interfaces e (switched dev config k (unat m)) (?descs ! k) \<and>
                    (\<forall>status dev'.
                       ?run = Some (Inr (status, dev')) \<longrightarrow>
                       current_config_index dev' = int k \<and>
                       length (interface_statuses dev') = length (interface_statuses dev) \<and>
                       (\<exists>new. calls dev' =
                                calls dev @ Set_configuration config ZX_OK #
                                  map Device_remove (children dev) @ new \<and>
                              (\<forall>cfg st. Set_configuration cfg st \<notin> set new) \<and>
                              (\<forall>c \<in> set (children dev'). added c new) \<and>
                              (\<forall>j < unat m.
                                 interface_statuses dev' ! j = AVAILABLE \<or>
                                 (interface_statuses dev' ! j = CHILD_DEVICE \<and>
                                  published_single j new) \<or>
                                 (interface_statuses dev' ! j = CLAIMED \<and>
                                  claimed_during e j new))))))"
    if k: "k < ?N" and at: "bConfigurationValue (?descs ! k) = Inr config"
      and before: "\<forall>j < k. bConfigurationValue (?descs ! j) \<noteq> Inr config" for k
  proof -
    from before rd k have "\<forall>j < k. \<exists>v. bConfigurationValue (?descs ! j) = Inr v \<and> uint v \<noteq> uint config"
      by (metis word_uint_eq_iff less_trans)
    from find_config_first[OF this at refl k len, of 0]
    have f: "find_config ?descs (uint config) [0 ..< ?N] = Inr (Some (k, ?descs ! k))" by simp
    note fail = set_configuration_found(1)[OF f, of e]
    have over: "?run = Some (Inl Out_of_bounds)"
      if "control_status e config = ZX_OK" "bNumInterfaces (?descs ! k) = Inr m"
        "length (interface_statuses dev) < unat m" for m
      using set_configuration_overflow[OF f that] .
    have ok: "?run = usb_device_add_interfaces e (switched dev config k (unat m)) (?descs ! k) \<and>
                 (\<forall>status dev'.
                    ?run = Some (Inr (status, dev')) \<longrightarrow>
                    current_config_index dev' = int k \<and>
                    length (interface_statuses dev') = length (interface_statuses dev) \<and>
                    (\<exists>new. calls dev' =
                             calls dev @ Set_configuration config ZX_OK #
                               map Device_remove (children dev) @ new \<and>
                           (\<forall>cfg st. Set_configuration cfg st \<notin> set new) \<and>
                           (\<forall>c \<in> set (children dev'). added c new) \<and>
                           (\<forall>j < unat m.
                              interface_statuses dev' ! j = AVAILABLE \<or>
                              (interface_statuses dev' ! j = CHILD_DEVICE \<and>
                               published_single j new) \<or>
                              (interface_statuses dev' ! j = CLAIMED \<and>
                               claimed_during e j new))))"
      if c: "control_status e config = ZX_OK" and m: "bNumInterfaces (?descs ! k) = Inr m"
        and fits: "unat m \<le> length (interface_statuses dev)" for m
    proof -
      let ?sw = "switched dev config k (unat m)"
      note eq = set_configuration_found(2)[OF f c m fits]
      have fin: "current_config_index dev' = int k \<and>
                    length (interface_statuses dev') = length (interface_statuses dev) \<and>
                    (\<exists>new. calls dev' =
                             calls dev @ Set_configuration config ZX_OK #
                               map Device_remove (children dev) @ new \<and>
                           (\<forall>cfg st. Set_configuration cfg st \<notin> set new) \<and>
                           (\<forall>c \<in> set (children dev'). added c new) \<and>
                           (\<forall>j < unat m.
                              interface_statuses dev' ! j = AVAILABLE \<or>
                              (interface_statuses dev' ! j = CHILD_DEVICE \<and>
                               published_single j new) \<or>
                              (interface_statuses dev' ! j = CLAIMED \<and>
                               claimed_during e j new)))"
        if ret: "?run = Some (Inr (status, dev'))"
        for status dev'
      proof -
        from ret eq have w: "usb_device_add_interfaces e ?sw (?descs ! k) = Some (Inr (status, dev'))"
          by simp
        from add_interfaces_kept[OF w] obtain n1 where
            kept: "length (interface_statuses dev') = length (interface_statuses ?sw)"
              "current_config_index dev' = current_config_index ?sw"
            and n1: "calls dev' = calls ?sw @ n1" "\<forall>cfg st. Set_configuration cfg st \<notin> set n1"
          unfolding registry_kept_def by blast
        from add_interfaces_children[OF w] obtain n2 where
            n2: "calls dev' = calls ?sw @ n2"
              "\<forall>c \<in> set (children dev'). c \<in> set (children ?sw) \<or> added c n2"
          unfolding children_added_def by blast
        from add_interfaces_marks[OF w] obtain n3 where
            n3: "calls dev' = calls ?sw @ n3"
              "\<forall>j < length (interface_statuses ?sw).
                 interface_statuses dev' ! j = interface_statuses ?sw ! j \<or>
                 (interface_statuses dev' ! j = CHILD_DEVICE \<and> published_single j n3) \<or>
                 (interface_statuses dev' ! j = CLAIMED \<and> claimed_during e j n3)"
          unfolding marked_def by blast
        from n1(1) n2(1) have "n2 = n1" by simp
        with n2(2) have ch: "\<forall>c \<in> set (children dev'). added c n1"
          by (simp add: switched_def)
        from n1(1) n3(1) have e3: "n3 = n1" by simp
        have ls: "length (interface_statuses ?sw) = length (interface_statuses dev)"
          using fits by (simp add: switched_def)
        have marks: "interface_statuses dev' ! j = AVAILABLE \<or>
                 (interface_statuses dev' ! j = CHILD_DEVICE \<and> published_single j n1) \<or>
                 (interface_statuses dev' ! j = CLAIMED \<and> claimed_during e j n1)"
          if "j < unat m" for j
        proof -
          from that fits ls have "j < length (interface_statuses ?sw)" by simp
          from n3(2)[rule_format, OF this] switched_available[OF that fits, of config k] e3
          show ?thesis by simp
        qed
        from kept fits have "current_config_index dev' = int k"
            "length (interface_statuses dev') = length (interface_statuses dev)"
          by (simp_all add: switched_def)
        moreover from n1(1) have "calls dev' = calls dev @ Set_configuration config ZX_OK #
                               map Device_remove (children dev) @ n1"
          by (simp add: switched_def)
        ultimately show ?thesis using n1(2) ch marks by blast
      qed
      with eq show ?thesis by blast
    qed
    from fail over ok show ?thesis by blast
  qed
  from none found show ?thesis by blast
qed

lemma two_configs_count: "unat (bNumConfigurations two_configs_device) = 2"
  by (simp add: two_configs_device_def)

lemma two_configs_readable:
  "\<forall>j < unat (bNumConfigurations two_configs_device).
      j < length (config_descs two_configs_device) \<and> 5 < length (config_descs two_configs_device ! j)"
proof (intro allI impI)
  fix j
  assume "j < unat (bNumConfigurations two_configs_device)"
  then have "j = 0 \<or> j = 1" unfolding two_configs_count by arith
  then show "j < length (config_descs two_configs_device) \<and>
             5 < length (config_descs two_configs_device ! j)"
    by (auto simp: two_configs_device_def config_two_interfaces_def config_one_interface_def)
qed

lemma switch_to_second:
  "usb_device_set_configuration quiet_env two_configs_device 2 =
     Some (Inr (ZX_OK, two_configs_device
       \<lparr>current_config_index := 1,
        interface_statuses := [CHILD_DEVICE, CHILD_DEVICE],
        children := [\<lparr>interface_number = 0, descriptors = [9, 4, 0, 0, 0, 255, 0, 0, 0]\<rparr>],
        calls := [Set_configuration 2 ZX_OK,
                  Device_remove \<lparr>interface_number = 1, descriptors = [9, 4, 1, 0, 0, 255, 0, 0, 0]\<rparr>,
                  Device_remove \<lparr>interface_number = 0, descriptors = [9, 4, 0, 0, 0, 255, 0, 0, 0]\<rparr>,
                  Device_add_interface [9, 4, 0, 0, 0, 255, 0, 0, 0] ZX_OK]\<rparr>))"
  by (simp add: usb_device_set_configuration_def memset_statuses_def usb_device_remove_interfaces_def
        bNumInterfaces_def bConfigurationValue_def walk_defs
        two_configs_device_def two_children_device_def fresh_device_def quiet_env_def
        config_two_interfaces_def config_one_interface_def upt_conv_Cons)

theorem set_configuration_effect_witness:
  "bConfigurationValue (config_descs two_configs_device ! 1) = Inr 2 \<and>
   bConfigurationValue (config_descs two_configs_device ! 0) \<noteq> Inr 2 \<and>
   control_status quiet_env 2 = ZX_OK \<and>
   bNumInterfaces (config_descs two_configs_device ! 1) = Inr 1 \<and>
   unat (1 :: u8) \<le> length (interface_statuses two_configs_device) \<and>
   usb_device_set_configuration quiet_env two_configs_device 2 =
     usb_device_add_interfaces quiet_env (switched two_configs_device 2 1 1) config_one_interface \<and>
   usb_device_set_configuration quiet_env two_configs_device 2 =
     Some (Inr (ZX_OK, two_configs_device
       \<lparr>current_config_index := 1,
        interface_statuses := [CHILD_DEVICE, CHILD_DEVICE],
        children := [\<lparr>interface_number = 0, descriptors = [9, 4, 0, 0, 0, 255, 0, 0, 0]\<rparr>],
        calls := [Set_configuration 2 ZX_OK,
                  Device_remove \<lparr>interface_number = 1, descriptors = [9, 4, 1, 0, 0, 255, 0, 0, 0]\<rparr>,
                  Device_remove \<lparr>interface_number = 0, descriptors = [9, 4, 0, 0, 0, 255, 0, 0, 0]\<rparr>,
                  Device_add_interface [9, 4, 0, 0, 0, 255, 0, 0, 0] ZX_OK]\<rparr>)) \<and>
   published_single 0 [Device_add_interface [9, 4, 0, 0, 0, 255, 0, 0, 0] ZX_OK] \<and>
   added \<lparr>interface_number = 0, descriptors = [9, 4, 0, 0, 0, 255, 0, 0, 0]\<rparr>
     [Device_add_interface [9, 4, 0, 0, 0, 255, 0, 0, 0] ZX_OK] \<and>
   usb_device_set_configuration quiet_env two_configs_device 3 =
     Some (Inr (ZX_ERR_INVALID_ARGS, two_configs_device))"
proof -
  let ?after = "two_configs_device
       \<lparr>current_config_index := 1,
        interface_statuses := [CHILD_DEVICE, CHILD_DEVICE],
        children := [\<lparr>interface_number = 0, descriptors = [9, 4, 0, 0, 0, 255, 0, 0, 0]\<rparr>],
        calls := [Set_configuration 2 ZX_OK,
                  Device_remove \<lparr>interface_number = 1, descriptors = [9, 4, 1, 0, 0, 255, 0, 0, 0]\<rparr>,
                  Device_remove \<lparr>interface_number = 0, descriptors = [9, 4, 0, 0, 0, 255, 0, 0, 0]\<rparr>,
                  Device_add_interface [9, 4, 0, 0, 0, 255, 0, 0, 0] ZX_OK]\<rparr>"
  have v: "bConfigurationValue (config_descs two_configs_device ! 1) = Inr 2"
      "bConfigurationValue (config_descs two_configs_device ! 0) = Inr 1"
      "bNumInterfaces (config_descs two_configs_device ! 1) = Inr 1"
      "config_descs two_configs_device ! 1 = config_one_interface"
      "unat (bNumConfigurations two_configs_device) = 2"
      "unat (1 :: u8) \<le> length (interface_statuses two_configs_device)"
      "control_status quiet_env 2 = ZX_OK"
    by (simp_all add: two_configs_device_def two_children_device_def fresh_device_def
          config_two_interfaces_def config_one_interface_def bConfigurationValue_def
          bNumInterfaces_def rd8_def quiet_env_def)
  have first: "\<forall>j < 1. bConfigurationValue (config_descs two_configs_device ! j) \<noteq> Inr 2"
    using v(2) by simp
  have lt: "(1 :: nat) < 2" by simp
  note t1 = set_configuration_effect[OF two_configs_readable, of 2 quiet_env, THEN conjunct2,
      unfolded v(5), rule_format, where k = 1]
  note t2 = t1[OF lt conjI[OF v(1) first], THEN conjunct2, rule_format, where m = 1]
  note t3 = t2[OF conjI[OF v(7) v(3)], THEN conjunct2, rule_format, OF v(6)]
  from t3
  have sw: "usb_device_set_configuration quiet_env two_configs_device 2 =
          usb_device_add_interfaces quiet_env (switched two_configs_device 2 1 (unat (1 :: u8)))
            (config_descs two_configs_device ! 1) \<and>
        (\<forall>status dev'.
           usb_device_set_configuration quiet_env two_configs_device 2 = Some (Inr (status, dev')) \<longrightarrow>
           current_config_index dev' = int 1 \<and>
           length (interface_statuses dev') = length (interface_statuses two_configs_device) \<and>
           (\<exists>new. calls dev' =
                    calls two_configs_device @ Set_configuration 2 ZX_OK #
                      map Device_remove (children two_configs_device) @ new \<and>
                  (\<forall>cfg st. Set_configuration cfg st \<notin> set new) \<and>
                  (\<forall>c \<in> set (children dev'). added c new) \<and>
                  (\<forall>j < unat (1 :: u8).
                     interface_statuses dev' ! j = AVAILABLE \<or>
                     (interface_statuses dev' ! j = CHILD_DEVICE \<and> published_single j new) \<or>
                     (interface_statuses dev' ! j = CLAIMED \<and> claimed_during quiet_env j new))))"
    by simp
  from sw v(4) have a: "usb_device_set_configuration quiet_env two_configs_device 2 =
     usb_device_add_interfaces quiet_env (switched two_configs_device 2 1 1) config_one_interface"
    by simp
  from sw[THEN conjunct2, rule_format, OF switch_to_second] obtain new where
      new: "calls ?after =
              calls two_configs_device @ Set_configuration 2 ZX_OK #
                map Device_remove (children two_configs_device) @ new"
        "\<forall>c \<in> set (children ?after). added c new"
        "\<forall>j < unat (1 :: u8).
           interface_statuses ?after ! j = AVAILABLE \<or>
           (interface_statuses ?after ! j = CHILD_DEVICE \<and> published_single j new) \<or>
           (interface_statuses ?after ! j = CLAIMED \<and> claimed_during quiet_env j new)"
    by blast
  from new(1) have n: "new = [Device_add_interface [9, 4, 0, 0, 0, 255, 0, 0, 0] ZX_OK]"
    by (simp add: two_configs_device_def two_children_device_def fresh_device_def)
  from new(3)[rule_format, of 0] have p: "published_single 0 new" by simp
  from new(2) have ad: "added \<lparr>interface_number = 0, descriptors = [9, 4, 0, 0, 0, 255, 0, 0, 0]\<rparr> new"
    by simp
  have "\<forall>j < unat (bNumConfigurations two_configs_device).
          bConfigurationValue (config_descs two_configs_device ! j) \<noteq> Inr 3"
  proof (intro allI impI)
    fix j
    assume "j < unat (bNumConfigurations two_configs_device)"
    then have "j = 0 \<or> j = 1" unfolding two_configs_count by arith
    then show "bConfigurationValue (config_descs two_configs_device ! j) \<noteq> Inr 3"
      by (auto simp: two_configs_device_def config_two_interfaces_def config_one_interface_def
            bConfigurationValue_def rd8_def)
  qed
  with set_configuration_effect[OF two_configs_readable, of 3 quiet_env]
  have b: "usb_device_set_configuration quiet_env two_configs_device 3 =
     Some (Inr (ZX_ERR_INVALID_ARGS, two_configs_device))"
    by blast
  from v(2) have v2: "bConfigurationValue (config_descs two_configs_device ! 0) \<noteq> Inr 2" by simp
  show ?thesis
    by (intro conjI) (fact v v2 a switch_to_second p[unfolded n] ad[unfolded n] b)+
qed

text \<open>
  C2 as stated fails on the device with the configurations 1 (two interfaces) and 2 (one
  interface): after the switch to 2 the status array still has its two entries, and they
  are \<open>CHILD_DEVICE\<close>: the first for the republished interface 0, the second left over.
  Where a driver claims interface 0 while the framework adds its child, the first entry is
  \<open>CLAIMED\<close> after the switch and the child is gone again.
\<close>

theorem set_configuration_keeps_array:
  "bNumInterfaces config_one_interface = Inr 1 \<and>
   usb_device_set_configuration quiet_env two_configs_device 2 =
     Some (Inr (ZX_OK, two_configs_device
       \<lparr>current_config_index := 1,
        interface_statuses := [CHILD_DEVICE, CHILD_DEVICE],
        children := [\<lparr>interface_number = 0, descriptors = [9, 4, 0, 0, 0, 255, 0, 0, 0]\<rparr>],
        calls := [Set_configuration 2 ZX_OK,
                  Device_remove \<lparr>interface_number = 1, descriptors = [9, 4, 1, 0, 0, 255, 0, 0, 0]\<rparr>,
                  Device_remove \<lparr>interface_number = 0, descriptors = [9, 4, 0, 0, 0, 255, 0, 0, 0]\<rparr>,
                  Device_add_interface [9, 4, 0, 0, 0, 255, 0, 0, 0] ZX_OK]\<rparr>)) \<and>
   usb_device_set_configuration claiming_env two_configs_device 2 =
     Some (Inr (ZX_OK, two_configs_device
       \<lparr>current_config_index := 1,
        interface_statuses := [CLAIMED, CHILD_DEVICE],
        children := [],
        calls := [Set_configuration 2 ZX_OK,
                  Device_remove \<lparr>interface_number = 1, descriptors = [9, 4, 1, 0, 0, 255, 0, 0, 0]\<rparr>,
                  Device_remove \<lparr>interface_number = 0, descriptors = [9, 4, 0, 0, 0, 255, 0, 0, 0]\<rparr>,
                  Device_add_interface [9, 4, 0, 0, 0, 255, 0, 0, 0] ZX_OK,
                  Device_remove \<lparr>interface_number = 0, descriptors = [9, 4, 0, 0, 0, 255, 0, 0, 0]\<rparr>]\<rparr>))"
  by (simp add: usb_device_set_configuration_def memset_statuses_def usb_device_remove_interfaces_def
        bNumInterfaces_def bConfigurationValue_def walk_defs claiming_env_def
        two_configs_device_def two_children_device_def fresh_device_def quiet_env_def
        config_two_interfaces_def config_one_interface_def upt_conv_Cons)

text \<open>
  The array is never reallocated: on a device whose array was allocated for the
  one-interface configuration, the switch to the two-interface configuration clears two
  entries of a one-entry array.
\<close>

lemma set_configuration_overflows_array:
  "usb_device_set_configuration quiet_env
     ((fresh_device [config_two_interfaces, config_one_interface] 1)\<lparr>current_config_index := 1\<rparr>) 1
     = Some (Inl Out_of_bounds)"
  by (simp add: usb_device_set_configuration_def memset_statuses_def usb_device_remove_interfaces_def
        bNumInterfaces_def bConfigurationValue_def rd8_def
        fresh_device_def quiet_env_def
        config_two_interfaces_def config_one_interface_def upt_conv_Cons)

subsection \<open>The walk on well-formed blobs\<close>

lemma length_assoc_members: "length (assoc_members n ds) \<le> length ds"
proof (induction ds arbitrary: n)
  case Nil
  then show ?case by simp
next
  case (Cons d ds)
  have "length (assoc_members k ds) \<le> Suc (length ds)" for k
    using Cons.IH[of k] by simp
  with Cons.IH show ?case by (simp split: nat.splits)
qed

lemma assoc_members_prefix:
  "assoc_members n ds @ drop (length (assoc_members n ds)) ds = ds"
  by (induction ds arbitrary: n) (auto split: nat.splits)

lemma intf_members_prefix:
  "intf_members ds @ drop (length (intf_members ds)) ds = ds"
  by (simp add: intf_members_def dropWhile_eq_drop[symmetric])

lemma assoc_rest:
  "drop (length (assoc_members n ds)) ds = [] \<or>
   is_assoc (hd (drop (length (assoc_members n ds)) ds)) \<or>
   (top_level (hd (drop (length (assoc_members n ds)) ds)) \<and>
    length (filter top_level (assoc_members n ds)) = n)"
  by (induction ds arbitrary: n) (auto split: nat.splits)

lemma assoc_count: "length (filter top_level (assoc_members n ds)) \<le> n"
  by (induction ds arbitrary: n) (auto split: nat.splits)

lemma intf_rest:
  "drop (length (intf_members ds)) ds = [] \<or> top_level (hd (drop (length (intf_members ds)) ds))"
  by (induction ds) (auto simp: intf_members_def)

text \<open>Reading the blob at the start of a descriptor.\<close>

lemma rd8_at:
  assumes "config = pre @ concat (d # ds)" and "k < length d"
  shows "rd8 config (length pre + k) = Inr (d ! k)"
  using assms by (simp add: rd8_def nth_append)

lemma fields_at:
  assumes c: "config = pre @ concat (d # ds)" and ok: "desc_ok d"
  shows "bDescriptorType config (length pre) = Inr (d ! 1)"
    and "NEXT_DESCRIPTOR config (length pre) = Inr (length pre + length d)"
    and "length pre < length config"
    and "4 \<le> length d \<Longrightarrow> bAlternateSetting config (length pre) = Inr (d ! 3)"
    and "4 \<le> length d \<Longrightarrow> bInterfaceCount config (length pre) = Inr (d ! 3)"
    and "4 \<le> length d \<Longrightarrow> bInterfaceNumber config (length pre) = Inr (d ! 2)"
proof -
  from ok have l: "2 \<le> length d" "unat (d ! 0) = length d" by (simp_all add: desc_ok_def)
  from l rd8_at[OF c, of 1] show "bDescriptorType config (length pre) = Inr (d ! 1)"
    by (simp add: bDescriptorType_def)
  from l have "0 < length d" by linarith
  from rd8_at[OF c this] l
  show "NEXT_DESCRIPTOR config (length pre) = Inr (length pre + length d)"
    by (simp add: NEXT_DESCRIPTOR_def bLength_def)
  from l have "d \<noteq> []" by auto
  with c show "length pre < length config" by simp
  show "bAlternateSetting config (length pre) = Inr (d ! 3)" if "4 \<le> length d"
    using that rd8_at[OF c, of 3] by (simp add: bAlternateSetting_def)
  show "bInterfaceCount config (length pre) = Inr (d ! 3)" if "4 \<le> length d"
    using that rd8_at[OF c, of 3] by (simp add: bInterfaceCount_def)
  show "bInterfaceNumber config (length pre) = Inr (d ! 2)" if "4 \<le> length d"
    using that rd8_at[OF c, of 2] by (simp add: bInterfaceNumber_def)
qed

text \<open>The two inner loops stop where the list-level groups end.\<close>

lemma intf_end_list:
  assumes "config = pre @ concat ds" and "list_all desc_ok ds"
  shows "intf_end config (length config) (length pre) =
           Some (Inr (length pre + length (concat (intf_members ds))))"
  using assms
proof (induction ds arbitrary: pre)
  case Nil
  then show ?case by (subst intf_end.simps) (simp add: intf_members_def)
next
  case (Cons d ds)
  from Cons.prems have ok: "desc_ok d" and oks: "list_all desc_ok ds" by simp_all
  note f = fields_at[OF Cons.prems(1) ok]
  from Cons.prems(1) have c': "config = (pre @ d) @ concat ds" by simp
  from Cons.IH[OF c' oks]
  have ih: "intf_end config (length config) (length pre + length d) =
              Some (Inr (length pre + length d + length (concat (intf_members ds))))"
    by simp
  show ?case
  proof (cases "top_level d")
    case True
    with ok have "4 \<le> length d" by (simp add: desc_ok_def top_level_def)
    with True f show ?thesis
      by (subst intf_end.simps) (simp add: intf_members_def top_level_def)
  next
    case False
    show ?thesis
    proof (cases "d ! 1 = USB_DT_INTERFACE")
      case True
      with ok have "4 \<le> length d" by (simp add: desc_ok_def)
      with True False f ih show ?thesis
        by (subst intf_end.simps) (simp add: intf_members_def top_level_def)
    next
      case nt: False
      with False f ih show ?thesis
        by (subst intf_end.simps) (simp add: intf_members_def top_level_def)
    qed
  qed
qed

lemma assoc_end_list:
  assumes "config = pre @ concat ds" and "list_all desc_ok ds"
  shows "assoc_end config (length config) (length pre) (int n) =
           Some (Inr (length pre + length (concat (assoc_members n ds))))"
  using assms
proof (induction ds arbitrary: pre n)
  case Nil
  then show ?case by (subst assoc_end.simps) simp
next
  case (Cons d ds)
  from Cons.prems have ok: "desc_ok d" and oks: "list_all desc_ok ds" by simp_all
  note f = fields_at[OF Cons.prems(1) ok]
  from Cons.prems(1) have c': "config = (pre @ d) @ concat ds" by simp
  have ih: "assoc_end config (length config) (length pre + length d) (int m) =
              Some (Inr (length pre + length d + length (concat (assoc_members m ds))))" for m
    using Cons.IH[OF c' oks, of m] by simp
  show ?case
  proof (cases "is_assoc d")
    case True
    with f show ?thesis
      by (subst assoc_end.simps) (simp add: is_assoc_def)
  next
    case na: False
    show ?thesis
    proof (cases "d ! 1 = USB_DT_INTERFACE")
      case True
      with ok have l4: "4 \<le> length d" by (simp add: desc_ok_def)
      show ?thesis
      proof (cases "d ! 3 = 0")
        case alt0: True
        show ?thesis
        proof (cases n)
          case 0
          with alt0 True na f l4 show ?thesis
            by (subst assoc_end.simps) (simp add: is_assoc_def top_level_def)
        next
          case (Suc m)
          have "assoc_end config (length config) (length pre) (int (Suc m)) =
                assoc_end config (length config) (length pre + length d) (int m)"
            using alt0 True na f l4
            by (subst assoc_end.simps) (simp add: is_assoc_def)
          with ih[of m] alt0 True na show ?thesis
            unfolding Suc by (simp add: is_assoc_def top_level_def)
        qed
      next
        case False
        with True na f l4 ih[of n] show ?thesis
          by (subst assoc_end.simps) (simp add: is_assoc_def top_level_def)
      qed
    next
      case False
      with na f ih[of n] show ?thesis
        by (subst assoc_end.simps) (simp add: is_assoc_def top_level_def)
    qed
  qed
qed

lemma types_differ: "USB_DT_INTERFACE \<noteq> USB_DT_INTERFACE_ASSOCIATION"
  by (simp add: USB_DT_INTERFACE_def USB_DT_INTERFACE_ASSOCIATION_def)

lemma rd8_prefix: "k < length d \<Longrightarrow> rd8 (pre @ d @ r) (length pre + k) = Inr (d ! k)"
  by (simp add: rd8_def nth_append)

lemma number_of_group:
  assumes "4 \<le> length d"
  shows "bInterfaceNumber (concat (d # g)) 0 = Inr (d ! 2)"
    and "bInterfaceNumber (pre @ concat (d # g) @ rest) (length pre) = Inr (d ! 2)"
proof -
  from assms have k: "2 < length d" by simp
  from rd8_prefix[OF k, of "[]" "concat g"] show "bInterfaceNumber (concat (d # g)) 0 = Inr (d ! 2)"
    by (simp add: bInterfaceNumber_def)
  from rd8_prefix[OF k, of pre "concat g @ rest"]
  show "bInterfaceNumber (pre @ concat (d # g) @ rest) (length pre) = Inr (d ! 2)"
    by (simp add: bInterfaceNumber_def)
qed

lemma memcpy_group:
  assumes "config = pre @ span @ rest"
  shows "memcpy_span config (length pre) (length span) = Inr span"
  using assms by (simp add: memcpy_span_def)

lemma publish_association_group:
  assumes c: "config = pre @ concat (d # g) @ rest" and q: "quiet e" and l: "4 \<le> length d"
  shows "publish_association e config (length pre) (length pre + length (concat (d # g))) result parent =
           Inr (Continue (if device_add_status e (concat (d # g)) \<noteq> ZX_OK
                          then device_add_status e (concat (d # g)) else result)
                  (with_child e parent
                     (Device_add_association (concat (d # g)) (device_add_status e (concat (d # g))))
                     (d ! 2) (concat (d # g))))"
proof -
  note n = number_of_group(1)[OF l, of g]
  from q have m: "malloc_ok e (length (concat (d # g)))" "bind_claims e (concat (d # g)) = []"
    by (simp_all add: quiet_def)
  from memcpy_group[OF c] m n show ?thesis
    by (simp add: publish_association_def usb_device_add_interface_association_def Let_def
          with_child_def del: concat.simps)
qed

lemma publish_interface_group:
  assumes c: "config = pre @ concat (d # g) @ rest" and q: "quiet e" and l: "4 \<le> length d"
    and a: "unat (d ! 2) < length (interface_statuses parent)"
       "interface_statuses parent ! unat (d ! 2) = AVAILABLE"
  shows "publish_interface e config (length pre) (length pre + length (concat (d # g))) result parent =
           Inr (Continue (if device_add_status e (concat (d # g)) \<noteq> ZX_OK
                          then device_add_status e (concat (d # g)) else result)
                  ((with_child e parent
                     (Device_add_interface (concat (d # g)) (device_add_status e (concat (d # g))))
                     (d ! 2) (concat (d # g)))
                   \<lparr>interface_statuses := (interface_statuses parent)[unat (d ! 2) := CHILD_DEVICE]\<rparr>))"
proof -
  note n = number_of_group(1)[OF l, of g]
  from number_of_group(2)[OF l, of pre g rest] c
  have n': "bInterfaceNumber config (length pre) = Inr (d ! 2)" by simp
  from q have m: "malloc_ok e (length (concat (d # g)))" "bind_claims e (concat (d # g)) = []"
    by (simp_all add: quiet_def)
  from memcpy_group[OF c] m n n' a show ?thesis
    by (simp add: publish_interface_def usb_device_add_interface_def Let_def
          with_child_def status_at_def set_status_def del: concat.simps)
qed

text \<open>One pass of the outer loop at each kind of descriptor.\<close>

lemma loop_at_association:
  assumes c: "config = pre @ concat (d # ds)" and ok: "list_all desc_ok (d # ds)"
    and a: "is_assoc d"
    and nxt: "nxt = length pre + length (concat (d # assoc_members (unat (d ! 3)) ds))"
  shows "add_interfaces_loop e config (length config) (length pre) result parent =
     (case publish_association e config (length pre) nxt result parent of
        Inl f \<Rightarrow> Some (Inl f)
      | Inr (Return status parent') \<Rightarrow> Some (Inr (status, parent'))
      | Inr (Continue result' parent') \<Rightarrow>
          add_interfaces_loop e config (length config) nxt result' parent')"
proof -
  from ok have okd: "desc_ok d" and oks: "list_all desc_ok ds" by simp_all
  from okd a have l4: "4 \<le> length d" by (simp add: desc_ok_def is_assoc_def)
  note f = fields_at[OF c okd]
  from c have c': "config = (pre @ d) @ concat ds" by simp
  from assoc_end_list[OF c' oks, of "unat (d ! 3)"] nxt
  have e: "assoc_end config (length config) (length pre + length d) (uint (d ! 3)) =
             Some (Inr nxt)"
    by simp
  from a f l4 e show ?thesis
    by (subst add_interfaces_loop.simps) (simp add: is_assoc_def)
qed

lemma loop_at_interface:
  assumes c: "config = pre @ concat (d # ds)" and ok: "list_all desc_ok (d # ds)"
    and a: "is_intf d"
    and nxt: "nxt = length pre + length (concat (d # intf_members ds))"
  shows "add_interfaces_loop e config (length config) (length pre) result parent =
     (case publish_interface e config (length pre) nxt result parent of
        Inl f \<Rightarrow> Some (Inl f)
      | Inr (Return status parent') \<Rightarrow> Some (Inr (status, parent'))
      | Inr (Continue result' parent') \<Rightarrow>
          add_interfaces_loop e config (length config) nxt result' parent')"
proof -
  from ok have okd: "desc_ok d" and oks: "list_all desc_ok ds" by simp_all
  note f = fields_at(1-3)[OF c okd]
  from c have c': "config = (pre @ d) @ concat ds" by simp
  from intf_end_list[OF c' oks] nxt
  have e: "intf_end config (length config) (length pre + length d) = Some (Inr nxt)"
    by simp
  from a f e types_differ show ?thesis
    by (subst add_interfaces_loop.simps) (simp add: is_intf_def)
qed

lemma loop_at_other:
  assumes c: "config = pre @ concat (d # ds)" and ok: "desc_ok d"
    and a: "\<not> is_assoc d" "\<not> is_intf d"
  shows "add_interfaces_loop e config (length config) (length pre) result parent =
         add_interfaces_loop e config (length config) (length pre + length d) result parent"
  using a fields_at[OF c ok]
  by (subst add_interfaces_loop.simps) (simp add: is_intf_def is_assoc_def)

lemma loop_at_end:
  "add_interfaces_loop e config (length config) (length config) result parent =
     Some (Inr (result, parent))"
  by (subst add_interfaces_loop.simps) simp

lemma assoc_not_intf: "is_assoc d \<Longrightarrow> \<not> is_intf d"
  using types_differ by (simp add: is_assoc_def is_intf_def)

lemma single_heads_assoc:
  "is_assoc d \<Longrightarrow>
   single_heads (d # ds) = single_heads (drop (length (assoc_members (unat (d ! 3)) ds)) ds)"
  by (simp add: single_heads_def assoc_not_intf)

lemma single_heads_intf:
  "\<not> is_assoc d \<Longrightarrow> is_intf d \<Longrightarrow>
   single_heads (d # ds) = d ! 2 # single_heads (drop (length (intf_members ds)) ds)"
  by (simp add: single_heads_def)

lemma single_heads_other:
  "\<not> is_assoc d \<Longrightarrow> \<not> is_intf d \<Longrightarrow> single_heads (d # ds) = single_heads ds"
  by (simp add: single_heads_def)

lemma list_all_drop: "list_all P xs \<Longrightarrow> list_all P (drop n xs)"
  by (metis append_take_drop_id list_all_append)

text \<open>
  On a well-formed blob the walk returns, and it publishes the groups of the descriptor
  list in order.
\<close>

lemma walk_groups:
  assumes q: "quiet e"
  shows "list_all desc_ok ds \<Longrightarrow> config = pre @ concat ds \<Longrightarrow> heads_available parent ds \<Longrightarrow>
         \<exists>st dev'. add_interfaces_loop e config (length config) (length pre) result parent =
                      Some (Inr (st, dev')) \<and>
                    calls dev' = calls parent @ map (group_call e) (spec_groups ds)"
proof (induction ds arbitrary: pre result parent rule: spec_groups.induct)
  case 1
  then show ?case using loop_at_end[of e config result parent] by simp
next
  case (2 d ds)
  from "2.prems"(1) have okd: "desc_ok d" and oks: "list_all desc_ok ds" by simp_all
  note c = "2.prems"(2)
  show ?case
  proof (cases "is_assoc d")
    case True
    let ?g = "assoc_members (unat (d ! 3)) ds"
    let ?rest = "drop (length ?g) ds"
    let ?span = "concat (d # ?g)"
    from okd True have l4: "4 \<le> length d" by (simp add: desc_ok_def is_assoc_def)
    from assoc_members_prefix[of "unat (d ! 3)" ds]
    have split: "concat (d # ds) = ?span @ concat ?rest"
      by (metis concat.simps(2) concat_append append.assoc)
    with c have c1: "config = pre @ ?span @ concat ?rest" by simp
    let ?p1 = "with_child e parent (Device_add_association ?span (device_add_status e ?span)) (d ! 2) ?span"
    let ?r1 = "if device_add_status e ?span \<noteq> ZX_OK then device_add_status e ?span else result"
    from loop_at_association[OF c "2.prems"(1) True refl, of e result parent]
      publish_association_group[OF c1 q l4, of result parent]
    have step: "add_interfaces_loop e config (length config) (length pre) result parent =
                add_interfaces_loop e config (length config) (length pre + length ?span) ?r1 ?p1"
      by simp
    from c1 have c2: "config = (pre @ ?span) @ concat ?rest" by simp
    from "2.prems"(3) True have h: "heads_available ?p1 ?rest"
      by (simp add: heads_available_def single_heads_assoc with_child_def)
    from "2.IH"(1)[OF True list_all_drop[OF oks] c2 h, of ?r1]
    obtain st dev' where
        "add_interfaces_loop e config (length config) (length pre + length ?span) ?r1 ?p1 =
           Some (Inr (st, dev'))"
        "calls dev' = calls ?p1 @ map (group_call e) (spec_groups ?rest)"
      by auto
    with step True show ?thesis
      by (simp add: with_child_def group_call_def)
  next
    case na: False
    show ?thesis
    proof (cases "is_intf d")
      case True
      let ?g = "intf_members ds"
      let ?rest = "drop (length ?g) ds"
      let ?span = "concat (d # ?g)"
      from okd True have l4: "4 \<le> length d" by (simp add: desc_ok_def is_intf_def)
      from intf_members_prefix[of ds]
      have split: "concat (d # ds) = ?span @ concat ?rest"
        by (metis concat.simps(2) concat_append append.assoc)
      with c have c1: "config = pre @ ?span @ concat ?rest" by simp
      from "2.prems"(3) na True have a: "unat (d ! 2) < length (interface_statuses parent)"
          "interface_statuses parent ! unat (d ! 2) = AVAILABLE"
          and dist: "d ! 2 \<notin> set (single_heads ?rest)" "distinct (single_heads ?rest)"
          and others: "\<forall>n \<in> set (single_heads ?rest).
                unat n < length (interface_statuses parent) \<and>
                interface_statuses parent ! unat n = AVAILABLE"
        by (simp_all add: heads_available_def single_heads_intf)
      let ?p1 = "(with_child e parent (Device_add_interface ?span (device_add_status e ?span)) (d ! 2) ?span)
                   \<lparr>interface_statuses := (interface_statuses parent)[unat (d ! 2) := CHILD_DEVICE]\<rparr>"
      let ?r1 = "if device_add_status e ?span \<noteq> ZX_OK then device_add_status e ?span else result"
      from loop_at_interface[OF c "2.prems"(1) True refl, of e result parent]
        publish_interface_group[OF c1 q l4 a, of result]
      have step: "add_interfaces_loop e config (length config) (length pre) result parent =
                  add_interfaces_loop e config (length config) (length pre + length ?span) ?r1 ?p1"
        by simp
      from c1 have c2: "config = (pre @ ?span) @ concat ?rest" by simp
      have h: "heads_available ?p1 ?rest"
        unfolding heads_available_def
      proof (intro conjI ballI)
        show "distinct (single_heads ?rest)" by (rule dist(2))
      next
        fix n assume n: "n \<in> set (single_heads ?rest)"
        with others show "unat n < length (interface_statuses ?p1)"
          by (simp add: with_child_def)
        from n dist(1) have "n \<noteq> d ! 2" by auto
        then have "unat n \<noteq> unat (d ! 2)" by (simp add: word_unat_eq_iff)
        with n others show "interface_statuses ?p1 ! unat n = AVAILABLE"
          by (simp add: with_child_def)
      qed
      from "2.IH"(2)[OF na True list_all_drop[OF oks] c2 h, of ?r1]
      obtain st dev' where
          "add_interfaces_loop e config (length config) (length pre + length ?span) ?r1 ?p1 =
             Some (Inr (st, dev'))"
          "calls dev' = calls ?p1 @ map (group_call e) (spec_groups ?rest)"
        by auto
      with step na True show ?thesis
        by (simp add: with_child_def group_call_def)
    next
      case False
      from c have c2: "config = (pre @ d) @ concat ds" by simp
      from "2.prems"(3) na False have h: "heads_available parent ds"
        by (simp add: heads_available_def single_heads_other)
      from "2.IH"(3)[OF na False oks c2 h, of result]
        loop_at_other[OF c okd na False, of e result parent] na False
      show ?thesis by simp
    qed
  qed
qed

lemma published_spans_groups: "published_spans (map (group_call e) gs) = map concat gs"
  by (induction gs) (auto simp: group_call_def)

lemma spec_groups_skip: "spec_groups (dropWhile skipped ds) = spec_groups ds"
  by (induction ds) (auto simp: skipped_def)

lemma top_level_intf: "top_level d \<Longrightarrow> is_intf d"
  by (simp add: top_level_def is_intf_def)

lemma concat_groups:
  "ds = [] \<or> \<not> skipped (hd ds) \<Longrightarrow> concat (map concat (spec_groups ds)) = concat ds"
proof (induction ds rule: spec_groups.induct)
  case 1
  then show ?case by simp
next
  case (2 d ds)
  show ?case
  proof (cases "is_assoc d")
    case True
    let ?g = "assoc_members (unat (d ! 3)) ds"
    let ?rest = "drop (length ?g) ds"
    from assoc_rest[of "unat (d ! 3)" ds] have "?rest = [] \<or> \<not> skipped (hd ?rest)"
      by (auto simp: skipped_def top_level_intf)
    from "2.IH"(1)[OF True this] have "concat (map concat (spec_groups ?rest)) = concat ?rest" .
    moreover from assoc_members_prefix[of "unat (d ! 3)" ds]
    have "concat ds = concat ?g @ concat ?rest" by (metis concat_append)
    ultimately show ?thesis using True by simp
  next
    case na: False
    with "2.prems" have i: "is_intf d" by (simp add: skipped_def)
    let ?g = "intf_members ds"
    let ?rest = "drop (length ?g) ds"
    from intf_rest[of ds] have "?rest = [] \<or> \<not> skipped (hd ?rest)"
      by (auto simp: skipped_def top_level_intf)
    from "2.IH"(2)[OF na i this] have "concat (map concat (spec_groups ?rest)) = concat ?rest" .
    moreover from intf_members_prefix[of ds]
    have "concat ds = concat ?g @ concat ?rest" by (metis concat_append)
    ultimately show ?thesis using na i by simp
  qed
qed

lemma concat_groups_skip:
  "concat (map concat (spec_groups ds)) = concat (dropWhile skipped ds)"
proof -
  have "dropWhile skipped ds = [] \<or> \<not> skipped (hd (dropWhile skipped ds))"
    by (metis hd_dropWhile)
  from concat_groups[OF this] show ?thesis by (simp add: spec_groups_skip)
qed

text \<open>
  C6, as amended. For every well-formed configuration blob, with the interface numbers of
  its single-interface groups distinct, inside the status array and \<open>AVAILABLE\<close>, no failing
  allocation and no claim arriving during the walk: the walk returns, the spans it publishes
  are the groups of the descriptor list in order, and their concatenation is the blob from
  its first interface or interface association descriptor on. The 9-byte header and the
  descriptors before that first one are in no group; nothing else is left out, and nothing
  is published twice.
\<close>

theorem walk_coverage:
  assumes ok: "config_ok config ds" and q: "quiet e" and h: "heads_available parent ds"
  shows "\<exists>st dev' new.
           usb_device_add_interfaces e parent config = Some (Inr (st, dev')) \<and>
           calls dev' = calls parent @ new \<and>
           published_spans new = map concat (spec_groups ds) \<and>
           concat (published_spans new) = concat (dropWhile skipped ds) \<and>
           concat (published_spans new) =
             drop (9 + length (concat (takeWhile skipped ds))) config"
proof -
  from ok have c: "config = take 9 config @ concat ds" and oks: "list_all desc_ok ds"
      and hd: "9 \<le> length config" "config ! 0 = 9" "wTotalLength config = Inr (length config)"
    by (simp_all add: config_ok_def)
  from hd have l: "length (take 9 config) = 9" by simp
  from hd have "0 < length config" by linarith
  with hd have n: "NEXT_DESCRIPTOR config 0 = Inr 9"
    by (simp add: NEXT_DESCRIPTOR_def bLength_def rd8_def)
  from walk_groups[OF q oks c h, of ZX_OK] l obtain st dev' where
      w: "add_interfaces_loop e config (length config) 9 ZX_OK parent = Some (Inr (st, dev'))"
      and cs: "calls dev' = calls parent @ map (group_call e) (spec_groups ds)"
    by auto
  let ?new = "map (group_call e) (spec_groups ds)"
  from w n hd have r: "usb_device_add_interfaces e parent config = Some (Inr (st, dev'))"
    by (simp add: usb_device_add_interfaces_def)
  have p: "published_spans ?new = map concat (spec_groups ds)"
    by (rule published_spans_groups)
  have k: "concat (published_spans ?new) = concat (dropWhile skipped ds)"
    by (simp add: p concat_groups_skip)
  have "concat ds = concat (takeWhile skipped ds) @ concat (dropWhile skipped ds)"
    by (metis concat_append takeWhile_dropWhile_id)
  with c have "config = (take 9 config @ concat (takeWhile skipped ds)) @ concat (dropWhile skipped ds)"
    by simp
  then have "drop (length (take 9 config @ concat (takeWhile skipped ds))) config =
             concat (dropWhile skipped ds)"
    by (metis append_eq_conv_conj)
  with l have d: "drop (9 + length (concat (takeWhile skipped ds))) config = concat (dropWhile skipped ds)"
    by simp
  from r cs p k d show ?thesis by metis
qed

lemmas group_defs = is_assoc_def is_intf_def top_level_def skipped_def intf_members_def
  desc_ok_def USB_DT_INTERFACE_def USB_DT_INTERFACE_ASSOCIATION_def

theorem walk_coverage_witness:
  "config_ok config_two_interfaces [[9, 4, 0, 0, 0, 255, 0, 0, 0], [9, 4, 1, 0, 0, 255, 0, 0, 0]] \<and>
   quiet quiet_env \<and>
   heads_available (fresh_device [config_two_interfaces] 2)
     [[9, 4, 0, 0, 0, 255, 0, 0, 0], [9, 4, 1, 0, 0, 255, 0, 0, 0]] \<and>
   (\<exists>st dev' new.
      usb_device_add_interfaces quiet_env (fresh_device [config_two_interfaces] 2) config_two_interfaces
        = Some (Inr (st, dev')) \<and>
      calls dev' = calls (fresh_device [config_two_interfaces] 2) @ new \<and>
      published_spans new = [[9, 4, 0, 0, 0, 255, 0, 0, 0], [9, 4, 1, 0, 0, 255, 0, 0, 0]] \<and>
      concat (published_spans new) = drop 9 config_two_interfaces)"
proof -
  let ?ds = "[[9, 4, 0, 0, 0, 255, 0, 0, 0], [9, 4, 1, 0, 0, 255, 0, 0, 0]] :: u8 list list"
  have ok: "config_ok config_two_interfaces ?ds"
    by (simp add: config_ok_def config_two_interfaces_def wTotalLength_def rd8_def group_defs)
  have q: "quiet quiet_env"
    by (simp add: quiet_def quiet_env_def)
  have g: "spec_groups ?ds = [[[9, 4, 0, 0, 0, 255, 0, 0, 0]], [[9, 4, 1, 0, 0, 255, 0, 0, 0]]]"
    by (simp add: group_defs)
  have "single_heads ?ds = [0, 1]"
    unfolding single_heads_def g by (simp add: is_intf_def USB_DT_INTERFACE_def)
  then have h: "heads_available (fresh_device [config_two_interfaces] 2) ?ds"
    unfolding heads_available_def by (simp add: fresh_device_def replicate_two)
  have t: "takeWhile skipped ?ds = []"
    by (simp add: group_defs)
  from walk_coverage[OF ok q h] obtain st dev' new where
      "usb_device_add_interfaces quiet_env (fresh_device [config_two_interfaces] 2)
         config_two_interfaces = Some (Inr (st, dev'))"
      "calls dev' = calls (fresh_device [config_two_interfaces] 2) @ new"
      "published_spans new = map concat (spec_groups ?ds)"
      "concat (published_spans new) =
         drop (9 + length (concat (takeWhile skipped ?ds))) config_two_interfaces"
    by blast
  then have "\<exists>st dev' new.
      usb_device_add_interfaces quiet_env (fresh_device [config_two_interfaces] 2) config_two_interfaces
        = Some (Inr (st, dev')) \<and>
      calls dev' = calls (fresh_device [config_two_interfaces] 2) @ new \<and>
      published_spans new = [[9, 4, 0, 0, 0, 255, 0, 0, 0], [9, 4, 1, 0, 0, 255, 0, 0, 0]] \<and>
      concat (published_spans new) = drop 9 config_two_interfaces"
    unfolding g t by auto
  with ok q h show ?thesis by blast
qed

text \<open>
  C6 as stated fails on a well-formed blob whose header is followed by an OTG descriptor: the
  only group is the interface, 9 of the 12 bytes that follow the header.
\<close>

theorem walk_skips_leading_descriptor:
  "config_ok config_with_otg [[3, 9, 0], [9, 4, 0, 0, 0, 255, 0, 0, 0]] \<and>
   usb_device_add_interfaces quiet_env (fresh_device [config_with_otg] 1) config_with_otg =
     Some (Inr (ZX_OK, (fresh_device [config_with_otg] 1)
       \<lparr>interface_statuses := [CHILD_DEVICE],
        children := [\<lparr>interface_number = 0, descriptors = [9, 4, 0, 0, 0, 255, 0, 0, 0]\<rparr>],
        calls := [Device_add_interface [9, 4, 0, 0, 0, 255, 0, 0, 0] ZX_OK]\<rparr>)) \<and>
   drop 9 config_with_otg = [3, 9, 0, 9, 4, 0, 0, 0, 255, 0, 0, 0]"
proof -
  have "config_ok config_with_otg [[3, 9, 0], [9, 4, 0, 0, 0, 255, 0, 0, 0]]"
    by (simp add: config_ok_def config_with_otg_def wTotalLength_def rd8_def group_defs)
  moreover have "usb_device_add_interfaces quiet_env (fresh_device [config_with_otg] 1) config_with_otg =
     Some (Inr (ZX_OK, (fresh_device [config_with_otg] 1)
       \<lparr>interface_statuses := [CHILD_DEVICE],
        children := [\<lparr>interface_number = 0, descriptors = [9, 4, 0, 0, 0, 255, 0, 0, 0]\<rparr>],
        calls := [Device_add_interface [9, 4, 0, 0, 0, 255, 0, 0, 0] ZX_OK]\<rparr>))"
    by (simp add: walk_defs quiet_env_def fresh_device_def config_with_otg_def)
  moreover have "drop 9 config_with_otg = [3, 9, 0, 9, 4, 0, 0, 0, 255, 0, 0, 0]"
    by (simp add: config_with_otg_def)
  ultimately show ?thesis by blast
qed

subsection \<open>Interface association groups\<close>

lemma top_level_not_assoc: "top_level d \<Longrightarrow> \<not> is_assoc d"
  by (auto simp: top_level_def is_assoc_def types_differ)

lemma assoc_count_min:
  "length (filter top_level (assoc_members n ds)) =
     min n (length (filter top_level (takeWhile (\<lambda>d. \<not> is_assoc d) ds)))"
  by (induction ds arbitrary: n) (auto simp: top_level_not_assoc split: nat.splits)

lemma assoc_numbers_distinct:
  assumes "distinct (map (\<lambda>d. d ! 2) (filter top_level ds))"
  shows "distinct (map (\<lambda>d. d ! 2) (filter top_level (assoc_members n ds)))"
proof -
  from assoc_members_prefix[of n ds]
  have "map (\<lambda>d. d ! 2) (filter top_level ds) =
          map (\<lambda>d. d ! 2) (filter top_level (assoc_members n ds)) @
          map (\<lambda>d. d ! 2) (filter top_level (drop (length (assoc_members n ds)) ds))"
    by (metis filter_append map_append)
  with assms show ?thesis by simp
qed

text \<open>
  C7, as amended. In a blob whose descriptors from the association on are well-formed, when
  the outer loop stands at an interface association descriptor with \<open>bInterfaceCount = N\<close>
  and the copy of the group can be allocated, that pass publishes exactly one group, by one
  call of \<^verbatim>\<open>usb_device_add_interface_association\<close>, and goes on behind it; when the copy
  cannot be allocated the walk returns \<open>ZX_ERR_NO_MEMORY\<close> and publishes nothing. The group
  starts at the association and holds the first \<open>N\<close> top-level interfaces that follow before
  the next association, all of them if fewer than \<open>N\<close> follow: their count is the minimum
  of \<open>N\<close> and the number that follow, and so is the count of their interface numbers when
  the blob numbers its top-level interfaces distinctly. The group ends at the end of the
  blob, at the next association, or at a top-level interface, and in that last case it
  holds exactly \<open>N\<close>.
\<close>

theorem association_group:
  assumes c: "config = pre @ concat (d # ds)" and ok: "list_all desc_ok (d # ds)"
    and a: "is_assoc d"
    and g: "g = assoc_members (unat (d ! 3)) ds"
  shows "(malloc_ok e (length (concat (d # g))) \<longrightarrow>
           add_interfaces_loop e config (length config) (length pre) result parent =
             (case usb_device_add_interface_association e parent (concat (d # g)) of
                Inl f \<Rightarrow> Some (Inl f)
              | Inr (status, parent') \<Rightarrow>
                  add_interfaces_loop e config (length config) (length pre + length (concat (d # g)))
                    (if status \<noteq> ZX_OK then status else result) parent')) \<and>
         (\<not> malloc_ok e (length (concat (d # g))) \<longrightarrow>
           add_interfaces_loop e config (length config) (length pre) result parent =
             Some (Inr (ZX_ERR_NO_MEMORY, parent))) \<and>
         (\<forall>status parent'.
            usb_device_add_interface_association e parent (concat (d # g)) = Inr (status, parent') \<longrightarrow>
              (\<exists>removed. calls parent' =
                 calls parent @ Device_add_association (concat (d # g)) status #
                   map Device_remove removed)) \<and>
         length (filter top_level g) =
           min (unat (d ! 3)) (length (filter top_level (takeWhile (\<lambda>x. \<not> is_assoc x) ds))) \<and>
         (distinct (map (\<lambda>x. x ! 2) (filter top_level ds)) \<longrightarrow>
            card (set (map (\<lambda>x. x ! 2) (filter top_level g))) =
              min (unat (d ! 3)) (length (filter top_level (takeWhile (\<lambda>x. \<not> is_assoc x) ds)))) \<and>
         (drop (length g) ds = [] \<or> is_assoc (hd (drop (length g) ds)) \<or>
          (top_level (hd (drop (length g) ds)) \<and> length (filter top_level g) = unat (d ! 3)))"
proof -
  let ?span = "concat (d # g)"
  from assoc_members_prefix[of "unat (d ! 3)" ds] g
  have "concat (d # ds) = ?span @ concat (drop (length g) ds)"
    by (metis concat.simps(2) concat_append append.assoc)
  with c have c1: "config = pre @ ?span @ concat (drop (length g) ds)" by simp
  note at = loop_at_association[OF c ok a, of "length pre + length ?span" e result parent,
        unfolded g[symmetric], OF refl]
  have p: "publish_association e config (length pre) (length pre + length ?span) result parent =
        (case usb_device_add_interface_association e parent ?span of
           Inl f \<Rightarrow> Inl f
         | Inr (status, parent') \<Rightarrow>
             Inr (Continue (if status \<noteq> ZX_OK then status else result) parent'))"
    if "malloc_ok e (length ?span)"
    using memcpy_group[OF c1] that
    by (simp add: publish_association_def Let_def del: concat.simps)
  have loop: "add_interfaces_loop e config (length config) (length pre) result parent =
           (case usb_device_add_interface_association e parent ?span of
              Inl f \<Rightarrow> Some (Inl f)
            | Inr (status, parent') \<Rightarrow>
                add_interfaces_loop e config (length config) (length pre + length ?span)
                  (if status \<noteq> ZX_OK then status else result) parent')"
    if "malloc_ok e (length ?span)"
    unfolding at p[OF that]
    by (simp split: sum.splits)
  have q: "publish_association e config (length pre) (length pre + length ?span) result parent =
        Inr (Return ZX_ERR_NO_MEMORY parent)"
    if "\<not> malloc_ok e (length ?span)"
    using that by (simp add: publish_association_def Let_def del: concat.simps)
  have none: "add_interfaces_loop e config (length config) (length pre) result parent =
             Some (Inr (ZX_ERR_NO_MEMORY, parent))"
    if "\<not> malloc_ok e (length ?span)"
    unfolding at q[OF that] by simp
  have log: "\<exists>removed. calls parent' =
                 calls parent @ Device_add_association ?span status # map Device_remove removed"
    if r: "usb_device_add_interface_association e parent ?span = Inr (status, parent')"
    for status parent'
  proof -
    from r have "status = device_add_status e ?span"
      by (auto simp: usb_device_add_interface_association_def Let_def split: sum.splits if_splits)
    with add_association_calls[OF r] show ?thesis by simp
  qed
  have cnt: "length (filter top_level g) =
           min (unat (d ! 3)) (length (filter top_level (takeWhile (\<lambda>x. \<not> is_assoc x) ds)))"
    unfolding g by (rule assoc_count_min)
  have dist: "card (set (map (\<lambda>x. x ! 2) (filter top_level g))) =
              min (unat (d ! 3)) (length (filter top_level (takeWhile (\<lambda>x. \<not> is_assoc x) ds)))"
    if "distinct (map (\<lambda>x. x ! 2) (filter top_level ds))"
  proof -
    from assoc_numbers_distinct[OF that, of "unat (d ! 3)"] g
    have "distinct (map (\<lambda>x. x ! 2) (filter top_level g))" by simp
    from distinct_card[OF this] cnt show ?thesis by simp
  qed
  from loop none log cnt dist assoc_rest[of "unat (d ! 3)" ds] g
  show ?thesis by blast
qed

theorem association_group_witness:
  "config_video = take 9 config_video @
     concat ([8, 11, 0, 2, 14, 3, 0, 0] #
       [[9, 4, 0, 0, 0, 14, 1, 0, 0], [9, 4, 1, 0, 0, 14, 2, 0, 0], [9, 4, 1, 1, 0, 14, 2, 0, 0]]) \<and>
   list_all desc_ok ([8, 11, 0, 2, 14, 3, 0, 0] #
       [[9, 4, 0, 0, 0, 14, 1, 0, 0], [9, 4, 1, 0, 0, 14, 2, 0, 0], [9, 4, 1, 1, 0, 14, 2, 0, 0]]) \<and>
   is_assoc [8, 11, 0, 2, 14, 3, 0, 0] \<and>
   assoc_members 2 [[9, 4, 0, 0, 0, 14, 1, 0, 0], [9, 4, 1, 0, 0, 14, 2, 0, 0], [9, 4, 1, 1, 0, 14, 2, 0, 0]]
     = [[9, 4, 0, 0, 0, 14, 1, 0, 0], [9, 4, 1, 0, 0, 14, 2, 0, 0], [9, 4, 1, 1, 0, 14, 2, 0, 0]] \<and>
   malloc_ok quiet_env (length (drop 9 config_video)) \<and>
   distinct (map (\<lambda>x. x ! 2) (filter top_level
     [[9, 4, 0, 0, 0, 14, 1, 0, 0], [9, 4, 1, 0, 0, 14, 2, 0, 0], [9, 4, 1, 1, 0, 14, 2, 0, 0 :: u8]])) \<and>
   card (set (map (\<lambda>x. x ! 2) (filter top_level
     [[9, 4, 0, 0, 0, 14, 1, 0, 0], [9, 4, 1, 0, 0, 14, 2, 0, 0], [9, 4, 1, 1, 0, 14, 2, 0, 0 :: u8]]))) = 2 \<and>
   add_interfaces_loop quiet_env config_video (length config_video) 9 ZX_OK
       (fresh_device [config_video] 2) =
     Some (Inr (ZX_OK, (fresh_device [config_video] 2)
       \<lparr>children := [\<lparr>interface_number = 0, descriptors = drop 9 config_video\<rparr>],
        calls := [Device_add_association (drop 9 config_video) ZX_OK]\<rparr>)) \<and>
   add_interfaces_loop (quiet_env\<lparr>malloc_ok := \<lambda>n. False\<rparr>) config_video (length config_video) 9
       ZX_OK (fresh_device [config_video] 2) =
     Some (Inr (ZX_ERR_NO_MEMORY, fresh_device [config_video] 2))"
proof -
  let ?d = "[8, 11, 0, 2, 14, 3, 0, 0] :: u8 list"
  let ?ds = "[[9, 4, 0, 0, 0, 14, 1, 0, 0], [9, 4, 1, 0, 0, 14, 2, 0, 0], [9, 4, 1, 1, 0, 14, 2, 0, 0]]
             :: u8 list list"
  have c: "config_video = take 9 config_video @ concat (?d # ?ds)"
    by (simp add: config_video_def)
  have ok: "list_all desc_ok (?d # ?ds)"
    by (simp add: group_defs)
  have a: "is_assoc ?d"
    by (simp add: group_defs)
  have n: "unat (?d ! 3) = 2" by simp
  have g: "?ds = assoc_members (unat (?d ! 3)) ?ds"
    unfolding n by (simp add: group_defs)
  have m: "malloc_ok quiet_env (length (concat (?d # ?ds)))"
      "\<not> malloc_ok (quiet_env\<lparr>malloc_ok := \<lambda>n. False\<rparr>) (length (concat (?d # ?ds)))"
    by (simp_all add: quiet_env_def)
  have l: "length (take 9 config_video) = 9" "length config_video = 44"
    by (simp_all add: config_video_def)
  have s: "concat (?d # ?ds) = drop 9 config_video"
    by (simp add: config_video_def)
  have e: "9 + length (drop 9 config_video) = length config_video"
    by (simp add: config_video_def)
  have di: "distinct (map (\<lambda>x. x ! 2) (filter top_level ?ds))"
    by (simp add: group_defs)
  have tw: "min (unat (?d ! 3)) (length (filter top_level (takeWhile (\<lambda>x. \<not> is_assoc x) ?ds))) = 2"
    by (simp add: group_defs)
  note all = association_group[OF c ok a g, of _ ZX_OK "fresh_device [config_video] 2"]
  from all[of quiet_env] m(1)
  have step: "add_interfaces_loop quiet_env config_video (length config_video)
                (length (take 9 config_video)) ZX_OK (fresh_device [config_video] 2) =
             (case usb_device_add_interface_association quiet_env (fresh_device [config_video] 2)
                     (concat (?d # ?ds)) of
                Inl f \<Rightarrow> Some (Inl f)
              | Inr (status, parent') \<Rightarrow>
                  add_interfaces_loop quiet_env config_video (length config_video)
                    (length (take 9 config_video) + length (concat (?d # ?ds)))
                    (if status \<noteq> ZX_OK then status else ZX_OK) parent')"
    by blast
  have aa: "usb_device_add_interface_association quiet_env (fresh_device [config_video] 2)
                (drop 9 config_video) =
       Inr (ZX_OK, (fresh_device [config_video] 2)
       \<lparr>children := [\<lparr>interface_number = 0, descriptors = drop 9 config_video\<rparr>],
        calls := [Device_add_association (drop 9 config_video) ZX_OK]\<rparr>)"
    by (simp add: usb_device_add_interface_association_def bInterfaceNumber_def rd8_def
          quiet_env_def fresh_device_def config_video_def)
  have w1: "add_interfaces_loop quiet_env config_video (length config_video) 9 ZX_OK
       (fresh_device [config_video] 2) =
     Some (Inr (ZX_OK, (fresh_device [config_video] 2)
       \<lparr>children := [\<lparr>interface_number = 0, descriptors = drop 9 config_video\<rparr>],
        calls := [Device_add_association (drop 9 config_video) ZX_OK]\<rparr>))"
    using step unfolding l(1) s e aa by (simp add: loop_at_end)
  from all[of "quiet_env\<lparr>malloc_ok := \<lambda>n. False\<rparr>"] m(2)
  have "add_interfaces_loop (quiet_env\<lparr>malloc_ok := \<lambda>n. False\<rparr>) config_video (length config_video)
          (length (take 9 config_video)) ZX_OK (fresh_device [config_video] 2) =
        Some (Inr (ZX_ERR_NO_MEMORY, fresh_device [config_video] 2))"
    by blast
  then have w2: "add_interfaces_loop (quiet_env\<lparr>malloc_ok := \<lambda>n. False\<rparr>) config_video
          (length config_video) 9 ZX_OK (fresh_device [config_video] 2) =
        Some (Inr (ZX_ERR_NO_MEMORY, fresh_device [config_video] 2))"
    unfolding l(1) .
  from all[of quiet_env] di tw
  have w3: "card (set (map (\<lambda>x. x ! 2) (filter top_level ?ds))) = 2"
    by (metis)
  from g n have w4: "assoc_members 2 ?ds = ?ds" by simp
  from m(1) have w5: "malloc_ok quiet_env (length (drop 9 config_video))" unfolding s .
  from c ok a w4 w5 di w3 w1 w2 show ?thesis by blast
qed

text \<open>
  C7 as stated fails on four well-formed blobs. Where interface 0 is followed by an
  association of interface 1, the inner loop of the interface branch runs over the
  association descriptor, which becomes part of the group of interface 0, and no association
  group is published at all. Where the copy of the group cannot be allocated, the walk
  returns \<open>ZX_ERR_NO_MEMORY\<close> without a publication. Where the association announces two
  interfaces and one follows, the group holds one. Where the two interfaces that follow
  have the same number, the group holds one interface number.
\<close>

theorem association_group_not_as_stated:
  "config_ok config_interface_then_association
     [[9, 4, 0, 0, 0, 3, 0, 0, 0], [8, 11, 1, 1, 255, 0, 0, 0], [9, 4, 1, 0, 0, 255, 0, 0, 0]] \<and>
   usb_device_add_interfaces quiet_env (fresh_device [config_interface_then_association] 2)
       config_interface_then_association =
     Some (Inr (ZX_OK, (fresh_device [config_interface_then_association] 2)
       \<lparr>interface_statuses := [CHILD_DEVICE, CHILD_DEVICE],
        children := [\<lparr>interface_number = 1, descriptors = [9, 4, 1, 0, 0, 255, 0, 0, 0]\<rparr>,
                     \<lparr>interface_number = 0,
                      descriptors = [9, 4, 0, 0, 0, 3, 0, 0, 0, 8, 11, 1, 1, 255, 0, 0, 0]\<rparr>],
        calls := [Device_add_interface [9, 4, 0, 0, 0, 3, 0, 0, 0, 8, 11, 1, 1, 255, 0, 0, 0] ZX_OK,
                  Device_add_interface [9, 4, 1, 0, 0, 255, 0, 0, 0] ZX_OK]\<rparr>)) \<and>
   config_ok config_video
     [[8, 11, 0, 2, 14, 3, 0, 0], [9, 4, 0, 0, 0, 14, 1, 0, 0], [9, 4, 1, 0, 0, 14, 2, 0, 0],
      [9, 4, 1, 1, 0, 14, 2, 0, 0]] \<and>
   usb_device_add_interfaces (quiet_env\<lparr>malloc_ok := \<lambda>n. False\<rparr>) (fresh_device [config_video] 2)
       config_video =
     Some (Inr (ZX_ERR_NO_MEMORY, fresh_device [config_video] 2)) \<and>
   config_ok config_short_association
     [[8, 11, 0, 2, 255, 0, 0, 0], [9, 4, 0, 0, 0, 255, 0, 0, 0]] \<and>
   bInterfaceCount config_short_association 9 = Inr 2 \<and>
   usb_device_add_interfaces quiet_env (fresh_device [config_short_association] 1)
       config_short_association =
     Some (Inr (ZX_OK, (fresh_device [config_short_association] 1)
       \<lparr>children := [\<lparr>interface_number = 0,
                       descriptors = [8, 11, 0, 2, 255, 0, 0, 0, 9, 4, 0, 0, 0, 255, 0, 0, 0]\<rparr>],
        calls := [Device_add_association
                    [8, 11, 0, 2, 255, 0, 0, 0, 9, 4, 0, 0, 0, 255, 0, 0, 0] ZX_OK]\<rparr>)) \<and>
   config_ok config_repeated_interface
     [[8, 11, 0, 2, 255, 0, 0, 0], [9, 4, 0, 0, 0, 255, 0, 0, 0], [9, 4, 0, 0, 0, 255, 0, 0, 0]] \<and>
   bInterfaceCount config_repeated_interface 9 = Inr 2 \<and>
   usb_device_add_interfaces quiet_env (fresh_device [config_repeated_interface] 1)
       config_repeated_interface =
     Some (Inr (ZX_OK, (fresh_device [config_repeated_interface] 1)
       \<lparr>children := [\<lparr>interface_number = 0,
                       descriptors = [8, 11, 0, 2, 255, 0, 0, 0, 9, 4, 0, 0, 0, 255, 0, 0, 0,
                                      9, 4, 0, 0, 0, 255, 0, 0, 0]\<rparr>],
        calls := [Device_add_association
                    [8, 11, 0, 2, 255, 0, 0, 0, 9, 4, 0, 0, 0, 255, 0, 0, 0,
                     9, 4, 0, 0, 0, 255, 0, 0, 0] ZX_OK]\<rparr>))"
proof -
  have "config_ok config_interface_then_association
     [[9, 4, 0, 0, 0, 3, 0, 0, 0], [8, 11, 1, 1, 255, 0, 0, 0], [9, 4, 1, 0, 0, 255, 0, 0, 0]]"
    by (simp add: config_ok_def config_interface_then_association_def wTotalLength_def rd8_def
          group_defs)
  moreover have "usb_device_add_interfaces quiet_env (fresh_device [config_interface_then_association] 2)
       config_interface_then_association =
     Some (Inr (ZX_OK, (fresh_device [config_interface_then_association] 2)
       \<lparr>interface_statuses := [CHILD_DEVICE, CHILD_DEVICE],
        children := [\<lparr>interface_number = 1, descriptors = [9, 4, 1, 0, 0, 255, 0, 0, 0]\<rparr>,
                     \<lparr>interface_number = 0,
                      descriptors = [9, 4, 0, 0, 0, 3, 0, 0, 0, 8, 11, 1, 1, 255, 0, 0, 0]\<rparr>],
        calls := [Device_add_interface [9, 4, 0, 0, 0, 3, 0, 0, 0, 8, 11, 1, 1, 255, 0, 0, 0] ZX_OK,
                  Device_add_interface [9, 4, 1, 0, 0, 255, 0, 0, 0] ZX_OK]\<rparr>))"
    by (simp add: walk_defs quiet_env_def fresh_device_def config_interface_then_association_def
          replicate_two)
  moreover have "config_ok config_video
     [[8, 11, 0, 2, 14, 3, 0, 0], [9, 4, 0, 0, 0, 14, 1, 0, 0], [9, 4, 1, 0, 0, 14, 2, 0, 0],
      [9, 4, 1, 1, 0, 14, 2, 0, 0]]"
    by (simp add: config_ok_def config_video_def wTotalLength_def rd8_def group_defs)
  moreover have "usb_device_add_interfaces (quiet_env\<lparr>malloc_ok := \<lambda>n. False\<rparr>)
       (fresh_device [config_video] 2) config_video =
     Some (Inr (ZX_ERR_NO_MEMORY, fresh_device [config_video] 2))"
    by (simp add: walk_defs quiet_env_def fresh_device_def config_video_def replicate_two)
  moreover have "config_ok config_short_association
     [[8, 11, 0, 2, 255, 0, 0, 0], [9, 4, 0, 0, 0, 255, 0, 0, 0]] \<and>
   bInterfaceCount config_short_association 9 = Inr 2 \<and>
   usb_device_add_interfaces quiet_env (fresh_device [config_short_association] 1)
       config_short_association =
     Some (Inr (ZX_OK, (fresh_device [config_short_association] 1)
       \<lparr>children := [\<lparr>interface_number = 0,
                       descriptors = [8, 11, 0, 2, 255, 0, 0, 0, 9, 4, 0, 0, 0, 255, 0, 0, 0]\<rparr>],
        calls := [Device_add_association
                    [8, 11, 0, 2, 255, 0, 0, 0, 9, 4, 0, 0, 0, 255, 0, 0, 0] ZX_OK]\<rparr>))"
    by (simp add: walk_defs quiet_env_def fresh_device_def config_short_association_def
          config_ok_def group_defs)
  moreover have "config_ok config_repeated_interface
     [[8, 11, 0, 2, 255, 0, 0, 0], [9, 4, 0, 0, 0, 255, 0, 0, 0], [9, 4, 0, 0, 0, 255, 0, 0, 0]] \<and>
   bInterfaceCount config_repeated_interface 9 = Inr 2 \<and>
   usb_device_add_interfaces quiet_env (fresh_device [config_repeated_interface] 1)
       config_repeated_interface =
     Some (Inr (ZX_OK, (fresh_device [config_repeated_interface] 1)
       \<lparr>children := [\<lparr>interface_number = 0,
                       descriptors = [8, 11, 0, 2, 255, 0, 0, 0, 9, 4, 0, 0, 0, 255, 0, 0, 0,
                                      9, 4, 0, 0, 0, 255, 0, 0, 0]\<rparr>],
        calls := [Device_add_association
                    [8, 11, 0, 2, 255, 0, 0, 0, 9, 4, 0, 0, 0, 255, 0, 0, 0,
                     9, 4, 0, 0, 0, 255, 0, 0, 0] ZX_OK]\<rparr>))"
    by (simp add: walk_defs quiet_env_def fresh_device_def config_repeated_interface_def
          config_ok_def group_defs)
  ultimately show ?thesis by blast
qed

subsection \<open>Bounds of the status array\<close>








end
